theory Spec2Isabelle
  imports Complex_Main
begin

section \<open>Memory model\<close>

text \<open>
  The C code passes \<^verbatim>\<open>image\<close> structs by value; each struct holds the three dimensions
  and a pointer to a flat sample buffer that every copy of the struct shares. The store
  is a list of buffers, a pointer is an index into it, and allocation appends a buffer,
  so that a fresh pointer never aliases an older one. A sample is a \<^verbatim>\<open>float\<close> in C. The
  accessors never compute with samples and are polymorphic in the sample type.
  \<^verbatim>\<open>clamp_image\<close> only compares samples and stores the constants 0 and 1, so it runs
  on IEEE values: a finite value, an infinity or NaN, with the comparisons of IEEE
  (false whenever an operand is NaN). The routines that do arithmetic on samples take
  them as exact reals; rounding, infinities and NaN are not modelled there.

  An access outside a buffer is undefined behaviour in C and a failed \<^verbatim>\<open>assert\<close> aborts:
  both are results of the model, so every routine returns \<open>fault + result\<close>.
  Coordinates are mathematical integers: after the clamping of \<^verbatim>\<open>get_pixel\<close> or the
  checks of \<^verbatim>\<open>set_pixel\<close> every term of the offset is non-negative, so an offset that
  would overflow a C \<^verbatim>\<open>int\<close> is beyond the buffer and faults here as well.
\<close>

datatype fault = OutOfBounds | AssertFailed

type_synonym 'a heap = "'a list list"

text \<open>The struct \<^verbatim>\<open>image\<close>: fields \<^verbatim>\<open>w\<close>, \<^verbatim>\<open>h\<close>, \<^verbatim>\<open>c\<close>, \<^verbatim>\<open>data\<close> (prefixed, since the
  source also uses \<^verbatim>\<open>w\<close>, \<^verbatim>\<open>h\<close> and \<^verbatim>\<open>c\<close> as variables).\<close>

record image =
  im_w :: int
  im_h :: int
  im_c :: int
  im_data :: nat

definition bnd :: "fault + 'a \<Rightarrow> ('a \<Rightarrow> fault + 'b) \<Rightarrow> fault + 'b" where
  "bnd m f = (case m of Inl e \<Rightarrow> Inl e | Inr a \<Rightarrow> f a)"

text \<open>\<^verbatim>\<open>p[i]\<close> as an rvalue and \<^verbatim>\<open>p[i] = v\<close>.\<close>

definition load :: "'a heap \<Rightarrow> nat \<Rightarrow> int \<Rightarrow> fault + 'a" where
  "load hp p i =
     (if p < length hp \<and> 0 \<le> i \<and> i < int (length (hp ! p))
      then Inr (hp ! p ! nat i) else Inl OutOfBounds)"

definition store :: "'a heap \<Rightarrow> nat \<Rightarrow> int \<Rightarrow> 'a \<Rightarrow> fault + 'a heap" where
  "store hp p i v =
     (if p < length hp \<and> 0 \<le> i \<and> i < int (length (hp ! p))
      then Inr (hp[p := (hp ! p)[nat i := v]]) else Inl OutOfBounds)"

text \<open>\<^verbatim>\<open>for (int i = 0; i < n; i++) body\<close>, the body threading the store and stopping at
  the first fault.\<close>

primrec for_each :: "'i list \<Rightarrow> ('i \<Rightarrow> 's \<Rightarrow> fault + 's) \<Rightarrow> 's \<Rightarrow> fault + 's" where
  "for_each [] body s = Inr s"
| "for_each (i # is) body s =
     (case body i s of Inl e \<Rightarrow> Inl e | Inr s' \<Rightarrow> for_each is body s')"

definition range0 :: "int \<Rightarrow> int list" where
  "range0 n = map int [0..<nat n]"

text \<open>The data invariant of the specification: non-negative dimensions and a buffer of
  exactly \<open>w * h * c\<close> samples.\<close>

definition wf_image :: "'a heap \<Rightarrow> image \<Rightarrow> bool" where
  "wf_image hp im \<longleftrightarrow>
     0 \<le> im_w im \<and> 0 \<le> im_h im \<and> 0 \<le> im_c im \<and> im_data im < length hp \<and>
     int (length (hp ! im_data im)) = im_w im * im_h im * im_c im"

section \<open>process\_image.c\<close>

definition get_pixel :: "'a heap \<Rightarrow> image \<Rightarrow> int \<Rightarrow> int \<Rightarrow> int \<Rightarrow> fault + 'a" where
  "get_pixel hp im x y c =
     (let x1 = (if x > im_w im then im_w im - 1 else x);
          y1 = (if y > im_h im then im_h im - 1 else y);
          c1 = (if c > im_c im then im_c im - 1 else c);
          x2 = (if x1 < 0 then 0 else x1);
          y2 = (if y1 < 0 then 0 else y1);
          c2 = (if c1 < 0 then 0 else c1)
      in load hp (im_data im) (x2 + y2 * im_w im + im_w im * im_h im * c2))"

definition set_pixel :: "'a heap \<Rightarrow> image \<Rightarrow> int \<Rightarrow> int \<Rightarrow> int \<Rightarrow> 'a \<Rightarrow> fault + 'a heap" where
  "set_pixel hp im x y c v =
     (if x > im_w im then Inr hp
      else if y > im_h im then Inr hp
      else if c > im_c im then Inr hp
      else if x < 0 then Inr hp
      else if y < 0 then Inr hp
      else if c < 0 then Inr hp
      else store hp (im_data im) (x + y * im_w im + im_w im * im_h im * c) v)"

text \<open>Modelled from the spec: \<^verbatim>\<open>make_image\<close> is declared in \<^verbatim>\<open>image.h\<close> and defined outside
  the two source files; the specification has it allocate a buffer of \<open>w * h * c\<close> samples
  for a new image, taken here as zero-filled.\<close>

definition make_image :: "'a::zero heap \<Rightarrow> int \<Rightarrow> int \<Rightarrow> int \<Rightarrow> 'a heap \<times> image" where
  "make_image hp w h c =
     (hp @ [replicate (nat (w * h * c)) 0],
      \<lparr>im_w = w, im_h = h, im_c = c, im_data = length hp\<rparr>)"

text \<open>\<^verbatim>\<open>memcpy(dst, src, n * sizeof(float))\<close>, with \<open>n\<close> counted in samples: both buffers
  must hold \<open>n\<close> samples and must not overlap.\<close>

definition memcpy :: "'a heap \<Rightarrow> nat \<Rightarrow> nat \<Rightarrow> int \<Rightarrow> fault + 'a heap" where
  "memcpy hp dst src n =
     (if dst < length hp \<and> src < length hp \<and> 0 \<le> n \<and> (n = 0 \<or> dst \<noteq> src) \<and>
         n \<le> int (length (hp ! dst)) \<and> n \<le> int (length (hp ! src))
      then Inr (hp[dst := take (nat n) (hp ! src) @ drop (nat n) (hp ! dst)])
      else Inl OutOfBounds)"

definition copy_image :: "'a::zero heap \<Rightarrow> image \<Rightarrow> fault + ('a heap \<times> image)" where
  "copy_image hp im =
     (let (hp1, copy) = make_image hp (im_w im) (im_h im) (im_c im)
      in bnd (memcpy hp1 (im_data copy) (im_data im) (im_w im * im_h im * im_c im))
           (\<lambda>hp2. Inr (hp2, copy)))"

definition rgb_to_grayscale :: "real heap \<Rightarrow> image \<Rightarrow> fault + (real heap \<times> image)" where
  "rgb_to_grayscale hp im =
     (if im_c im \<noteq> 3 then Inl AssertFailed
      else
        let (hp1, gray) = make_image hp (im_w im) (im_h im) 1
        in bnd (for_each (range0 (im_w im)) (\<lambda>i.
                  for_each (range0 (im_h im)) (\<lambda>j s.
                    bnd (get_pixel s im i j 0) (\<lambda>red.
                    bnd (get_pixel s im i j 1) (\<lambda>green.
                    bnd (get_pixel s im i j 2) (\<lambda>blue.
                      set_pixel s gray i j 0
                        (red * 0.299 + green * 0.587 + blue * 0.114)))))) hp1)
             (\<lambda>hp2. Inr (hp2, gray)))"

definition shift_image :: "'a::plus heap \<Rightarrow> image \<Rightarrow> int \<Rightarrow> 'a \<Rightarrow> fault + 'a heap" where
  "shift_image hp im c v =
     for_each (range0 (im_w im)) (\<lambda>i.
       for_each (range0 (im_h im)) (\<lambda>j s.
         bnd (get_pixel s im i j c) (\<lambda>p. set_pixel s im i j c (p + v)))) hp"

text \<open>The values of a \<^verbatim>\<open>float\<close> as far as comparisons see them, and the \<^verbatim>\<open><\<close> of IEEE 754
  on them (\<^verbatim>\<open>a > b\<close> is \<^verbatim>\<open>b < a\<close>): NaN compares false with everything.\<close>

datatype sample = NaN | NegInf | Finite real | PosInf

fun sample_less :: "sample \<Rightarrow> sample \<Rightarrow> bool" where
  "sample_less (Finite a) (Finite b) = (a < b)"
| "sample_less NegInf (Finite b) = True"
| "sample_less NegInf PosInf = True"
| "sample_less (Finite a) PosInf = True"
| "sample_less _ _ = False"

definition clamp_image :: "sample heap \<Rightarrow> image \<Rightarrow> fault + sample heap" where
  "clamp_image hp im =
     for_each (range0 (im_w im)) (\<lambda>i.
       for_each (range0 (im_h im)) (\<lambda>j.
         for_each (range0 (im_c im)) (\<lambda>c s.
           bnd (get_pixel s im i j c) (\<lambda>p.
           bnd (if sample_less (Finite 1) p then set_pixel s im i j c (Finite 1) else Inr s) (\<lambda>s1.
           bnd (get_pixel s1 im i j c) (\<lambda>q.
             if sample_less q (Finite 0) then set_pixel s1 im i j c (Finite 0) else Inr s1)))))) hp"








section \<open>resize\_image.c\<close>

text \<open>\<^verbatim>\<open>round\<close> of the C library rounds halfway cases away from zero; the result is
  converted to \<^verbatim>\<open>int\<close> at the call of \<^verbatim>\<open>get_pixel\<close>.\<close>

definition c_round :: "real \<Rightarrow> int" where
  "c_round x = (if 0 \<le> x then \<lfloor>x + 1 / 2\<rfloor> else \<lceil>x - 1 / 2\<rceil>)"

definition nn_interpolate :: "real heap \<Rightarrow> image \<Rightarrow> real \<Rightarrow> real \<Rightarrow> int \<Rightarrow> fault + real" where
  "nn_interpolate hp im x y c = get_pixel hp im (c_round x) (c_round y) c"

definition nn_resize :: "real heap \<Rightarrow> image \<Rightarrow> int \<Rightarrow> int \<Rightarrow> fault + (real heap \<times> image)" where
  "nn_resize hp im w h =
     (let (hp1, resized_image) = make_image hp w h (im_c im);
          ratio_x = real_of_int (im_w im) / real_of_int w;
          correction_factor_x = - 0.5 + 0.5 * ratio_x;
          ratio_y = real_of_int (im_h im) / real_of_int h;
          correction_factor_y = - 0.5 + 0.5 * ratio_y
      in bnd (for_each (range0 (im_h resized_image)) (\<lambda>row.
                for_each (range0 (im_w resized_image)) (\<lambda>col.
                  let x = ratio_x * real_of_int col + correction_factor_x;
                      y = ratio_y * real_of_int row + correction_factor_y
                  in for_each (range0 (im_c resized_image)) (\<lambda>z s.
                       bnd (nn_interpolate s im x y z) (\<lambda>val.
                         set_pixel s resized_image col row z val)))) hp1)
           (\<lambda>hp2. Inr (hp2, resized_image)))"

definition bilinear_interpolate ::
  "real heap \<Rightarrow> image \<Rightarrow> real \<Rightarrow> real \<Rightarrow> int \<Rightarrow> fault + real" where
  "bilinear_interpolate hp im x y c =
     (let left = \<lfloor>x\<rfloor>; right = \<lceil>x\<rceil>; bottom = \<lceil>y\<rceil>; top = \<lfloor>y\<rfloor>
      in bnd (get_pixel hp im left top c) (\<lambda>v1.
         bnd (get_pixel hp im right top c) (\<lambda>v2.
         bnd (get_pixel hp im left bottom c) (\<lambda>v3.
         bnd (get_pixel hp im right bottom c) (\<lambda>v4.
           let q1 = (real_of_int bottom - y) * v1 + (y - real_of_int top) * v3;
               q2 = (real_of_int bottom - y) * v2 + (y - real_of_int top) * v4;
               q = (x - real_of_int left) * q2 + (real_of_int right - x) * q1
           in Inr q)))))"

definition bilinear_resize ::
  "real heap \<Rightarrow> image \<Rightarrow> int \<Rightarrow> int \<Rightarrow> fault + (real heap \<times> image)" where
  "bilinear_resize hp im w h =
     (let (hp1, resized_image) = make_image hp w h (im_c im);
          ratio_x = real_of_int (im_w im) / real_of_int w;
          correction_factor_x = - 0.5 + 0.5 * ratio_x;
          ratio_y = real_of_int (im_h im) / real_of_int h;
          correction_factor_y = - 0.5 + 0.5 * ratio_y
      in bnd (for_each (range0 (im_h resized_image)) (\<lambda>row.
                for_each (range0 (im_w resized_image)) (\<lambda>col.
                  let x = ratio_x * real_of_int col + correction_factor_x;
                      y = ratio_y * real_of_int row + correction_factor_y
                  in for_each (range0 (im_c resized_image)) (\<lambda>z s.
                       bnd (bilinear_interpolate s im x y z) (\<lambda>val.
                         set_pixel s resized_image col row z val)))) hp1)
           (\<lambda>hp2. Inr (hp2, resized_image)))"

section \<open>Notions used in the statements\<close>

text \<open>What \<^verbatim>\<open>clamp_image\<close> does to one sample, and a sample lying in \<open>[0, 1]\<close>.\<close>

definition clamp01 :: "sample \<Rightarrow> sample" where
  "clamp01 v =
     (if sample_less (Finite 1) v then Finite 1
      else if sample_less v (Finite 0) then Finite 0 else v)"

definition in_unit :: "sample \<Rightarrow> bool" where
  "in_unit v = (case v of Finite r \<Rightarrow> 0 \<le> r \<and> r \<le> 1 | _ \<Rightarrow> False)"

section \<open>Offsets into the planar buffer\<close>

lemma offset_less:
  fixes x y c W H C :: int
  assumes "0 \<le> x" "x < W" "0 \<le> y" "y < H" "0 \<le> c" "c < C"
  shows "x + y * W + W * H * c < W * H * C"
proof -
  have "y * W \<le> (H - 1) * W"
    using assms by (intro mult_right_mono) auto
  moreover have "W * H * c \<le> W * H * (C - 1)"
    using assms by (intro mult_left_mono) auto
  ultimately have "x + y * W + W * H * c \<le> (W - 1) + (H - 1) * W + W * H * (C - 1)"
    using assms by linarith
  also have "\<dots> = W * H * C - 1"
    by (simp add: algebra_simps)
  finally show ?thesis by simp
qed

lemma offset_inj:
  fixes x y c x' y' c' W H :: int
  assumes "0 \<le> x" "x < W" "0 \<le> y" "y < H"
      and "0 \<le> x'" "x' < W" "0 \<le> y'" "y' < H"
      and eq: "x + y * W + W * H * c = x' + y' * W + W * H * c'"
  shows "x = x' \<and> y = y' \<and> c = c'"
proof -
  have e1: "x + (y + H * c) * W = x' + (y' + H * c') * W"
    using eq by (simp add: algebra_simps)
  have "(x + (y + H * c) * W) mod W = x" "(x' + (y' + H * c') * W) mod W = x'"
    using assms by simp_all
  with e1 have x: "x = x'" by simp
  have "(x + (y + H * c) * W) div W = y + H * c" "(x' + (y' + H * c') * W) div W = y' + H * c'"
    using assms by simp_all
  with e1 have e2: "y + c * H = y' + c' * H" by (simp add: mult.commute)
  have "(y + c * H) mod H = y" "(y' + c' * H) mod H = y'"
    using assms by simp_all
  with e2 have y: "y = y'" by simp
  have "(y + c * H) div H = c" "(y' + c' * H) div H = c'"
    using assms by simp_all
  with e2 have "c = c'" by simp
  with x y show ?thesis by simp
qed

section \<open>Pixel access at valid coordinates\<close>

lemma get_pixel_in_range:
  assumes "wf_image hp im" "0 \<le> x" "x < im_w im" "0 \<le> y" "y < im_h im" "0 \<le> c" "c < im_c im"
  shows "get_pixel hp im x y c =
           Inr (hp ! im_data im ! nat (x + y * im_w im + im_w im * im_h im * c))"
proof -
  have "x + y * im_w im + im_w im * im_h im * c < im_w im * im_h im * im_c im"
    using assms by (intro offset_less) auto
  moreover have "0 \<le> x + y * im_w im + im_w im * im_h im * c"
    using assms by simp
  ultimately show ?thesis
    using assms by (simp add: get_pixel_def load_def wf_image_def)
qed

lemma set_pixel_in_range:
  assumes "wf_image hp im" "0 \<le> x" "x < im_w im" "0 \<le> y" "y < im_h im" "0 \<le> c" "c < im_c im"
  shows "set_pixel hp im x y c v =
           Inr (hp[im_data im :=
                  (hp ! im_data im)[nat (x + y * im_w im + im_w im * im_h im * c) := v]])"
proof -
  have "x + y * im_w im + im_w im * im_h im * c < im_w im * im_h im * im_c im"
    using assms by (intro offset_less) auto
  moreover have "0 \<le> x + y * im_w im + im_w im * im_h im * c"
    using assms by simp
  ultimately show ?thesis
    using assms by (simp add: set_pixel_def store_def wf_image_def)
qed

lemma wf_image_update:
  "wf_image hp im \<Longrightarrow> length b = length (hp ! p) \<Longrightarrow> wf_image (hp[p := b]) im"
  by (cases "p = im_data im") (auto simp: wf_image_def)

section \<open>The bounds checks of the accessors\<close>

text \<open>
  C3. \<^verbatim>\<open>get_pixel\<close> is documented to return the closest valid pixel along the same axis
  for a coordinate outside the image, without ever leaving the buffer. The comparison
  is \<^verbatim>\<open>x > im.w\<close>, so \<open>x = w\<close> is not clamped: on a 2 x 2 x 1 image, \<open>(2, 0, 0)\<close> reads the
  sample of \<open>(0, 1, 0)\<close> and not that of the edge pixel \<open>(1, 0, 0)\<close>, and \<open>(2, 1, 0)\<close>
  reads one sample past the end of the buffer.
\<close>

theorem get_pixel_at_width_not_clamped:
  "get_pixel [[10, 20, 30, 40 :: int]] \<lparr>im_w = 2, im_h = 2, im_c = 1, im_data = 0\<rparr> 2 0 0 = Inr 30 \<and>
   get_pixel [[10, 20, 30, 40 :: int]] \<lparr>im_w = 2, im_h = 2, im_c = 1, im_data = 0\<rparr> 1 0 0 = Inr 20 \<and>
   get_pixel [[10, 20, 30, 40 :: int]] \<lparr>im_w = 2, im_h = 2, im_c = 1, im_data = 0\<rparr> 2 1 0 =
     Inl OutOfBounds"
  by (simp add: get_pixel_def load_def)

text \<open>
  C4. \<^verbatim>\<open>set_pixel\<close> is documented to ignore a request outside the image. The checks are
  \<^verbatim>\<open>x > im.w\<close>, \<^verbatim>\<open>y > im.h\<close>, \<^verbatim>\<open>c > im.c\<close>, so a coordinate equal to its bound is let
  through: on a 2 x 2 x 1 image the write at \<open>(2, 0, 0)\<close> changes the sample of
  \<open>(0, 1, 0)\<close>, and the write at \<open>(2, 1, 0)\<close> goes one sample past the end of the buffer.
\<close>

theorem set_pixel_at_width_not_dropped:
  "set_pixel [[10, 20, 30, 40 :: int]] \<lparr>im_w = 2, im_h = 2, im_c = 1, im_data = 0\<rparr> 2 0 0 99 =
     Inr [[10, 20, 99, 40]] \<and>
   set_pixel [[10, 20, 30, 40 :: int]] \<lparr>im_w = 2, im_h = 2, im_c = 1, im_data = 0\<rparr> 2 1 0 99 =
     Inl OutOfBounds"
  by (simp add: set_pixel_def store_def)

text \<open>
  C9. On a well-formed image with \<open>w \<ge> 1\<close>, for a row \<open>0 \<le> y \<le> h - 2\<close> and a valid
  channel \<open>ch\<close>, \<^verbatim>\<open>set_pixel(im, im.w, y, ch, v)\<close> is not dropped: afterwards the sample at
  \<open>(0, y + 1, ch)\<close> is \<open>v\<close>, the sample at every other valid coordinate is what it was,
  and no other buffer of the store has changed.
\<close>

theorem set_pixel_at_width_writes_next_row:
  assumes wf: "wf_image hp im" and w: "1 \<le> im_w im"
      and y: "0 \<le> y" "y \<le> im_h im - 2" and ch: "0 \<le> ch" "ch < im_c im"
  shows "\<exists>hp'. set_pixel hp im (im_w im) y ch v = Inr hp' \<and>
           get_pixel hp' im 0 (y + 1) ch = Inr v \<and>
           (\<forall>x' y' c'. 0 \<le> x' \<and> x' < im_w im \<and> 0 \<le> y' \<and> y' < im_h im \<and>
                       0 \<le> c' \<and> c' < im_c im \<and> (x', y', c') \<noteq> (0, y + 1, ch) \<longrightarrow>
                       get_pixel hp' im x' y' c' = get_pixel hp im x' y' c') \<and>
           length hp' = length hp \<and>
           (\<forall>p. p \<noteq> im_data im \<longrightarrow> hp' ! p = hp ! p)"
proof -
  let ?W = "im_w im" and ?H = "im_h im"
  let ?k = "0 + (y + 1) * ?W + ?W * ?H * ch"
  let ?buf = "hp ! im_data im"
  let ?hp' = "hp[im_data im := ?buf[nat ?k := v]]"
  have k_eq: "?W + y * ?W + ?W * ?H * ch = ?k"
    by (simp add: algebra_simps)
  have k_lt: "?k < ?W * ?H * im_c im"
    using assms by (intro offset_less) auto
  have k_ge: "0 \<le> ?k"
    using assms by simp
  have len: "int (length ?buf) = ?W * ?H * im_c im" and p: "im_data im < length hp"
    using wf by (simp_all add: wf_image_def)
  have set: "set_pixel hp im ?W y ch v = Inr ?hp'"
    using y ch w k_lt k_ge len p unfolding k_eq [symmetric]
    by (simp add: set_pixel_def store_def)
  have wf': "wf_image ?hp' im"
    using wf by (intro wf_image_update) auto
  have get: "get_pixel ?hp' im 0 (y + 1) ch = Inr v"
    using get_pixel_in_range [OF wf', of 0 "y + 1" ch] assms k_lt k_ge len p
    by simp
  have other: "get_pixel ?hp' im x' y' c' = get_pixel hp im x' y' c'"
    if r: "0 \<le> x'" "x' < ?W" "0 \<le> y'" "y' < ?H" "0 \<le> c'" "c' < im_c im"
      and ne: "(x', y', c') \<noteq> (0, y + 1, ch)" for x' y' c'
  proof -
    let ?k' = "x' + y' * ?W + ?W * ?H * c'"
    have "?k' \<noteq> ?k"
    proof
      assume "?k' = ?k"
      then have "x' = 0 \<and> y' = y + 1 \<and> c' = ch"
        using r assms by (intro offset_inj [where W = "?W" and H = "?H"]) auto
      with ne show False by simp
    qed
    moreover have "0 \<le> ?k'" using r assms by simp
    ultimately have "nat ?k' \<noteq> nat ?k" using k_ge by simp
    then show ?thesis
      using get_pixel_in_range [OF wf' r] get_pixel_in_range [OF wf r] p
      by simp
  qed
  show ?thesis
    using set get other by (intro exI [of _ ?hp']) auto
qed

theorem set_pixel_at_width_writes_next_row_witness:
  "set_pixel [[1, 2, 3, 4, 5, 6 :: int]] \<lparr>im_w = 3, im_h = 2, im_c = 1, im_data = 0\<rparr> 3 0 0 7 =
     Inr [[1, 2, 3, 7, 5, 6]] \<and>
   get_pixel [[1, 2, 3, 7, 5, 6 :: int]] \<lparr>im_w = 3, im_h = 2, im_c = 1, im_data = 0\<rparr> 0 1 0 =
     Inr 7"
  using set_pixel_at_width_writes_next_row
          [of "[[1, 2, 3, 4, 5, 6 :: int]]" "\<lparr>im_w = 3, im_h = 2, im_c = 1, im_data = 0\<rparr>" 0 0 7]
  by (simp add: wf_image_def set_pixel_def store_def get_pixel_def load_def)

section \<open>Interpolation at integer coordinates\<close>

lemma bilinear_interpolate_integer_point:
  assumes "wf_image hp im" "0 \<le> i" "i < im_w im" "0 \<le> j" "j < im_h im" "0 \<le> c" "c < im_c im"
  shows "bilinear_interpolate hp im (real_of_int i) (real_of_int j) c = Inr 0"
  using assms by (simp add: bilinear_interpolate_def get_pixel_in_range bnd_def)

text \<open>
  C1. At a point whose coordinates are both integers, \<^verbatim>\<open>floorf\<close> and \<^verbatim>\<open>ceilf\<close> coincide, so
  all four weights \<open>bottom - y\<close>, \<open>y - top\<close>, \<open>x - left\<close>, \<open>right - x\<close> are zero and
  \<^verbatim>\<open>bilinear_interpolate\<close> returns 0 whatever the image holds: at \<open>(1, 1)\<close> of a
  2 x 2 x 1 image it returns 0 while the stored sample is 0.4.
\<close>

theorem bilinear_at_integer_point_gives_zero:
  "bilinear_interpolate [[0.1, 0.2, 0.3, 0.4]] \<lparr>im_w = 2, im_h = 2, im_c = 1, im_data = 0\<rparr> 1 1 0 = Inr 0 \<and>
   get_pixel [[0.1, 0.2, 0.3, 0.4 :: real]] \<lparr>im_w = 2, im_h = 2, im_c = 1, im_data = 0\<rparr> 1 1 0 = Inr 0.4"
  by (simp add: bilinear_interpolate_def get_pixel_def load_def bnd_def)

text \<open>
  C2. Resizing to the image's own size maps every destination pixel to the integer
  source coordinate \<open>(col, row)\<close>. \<^verbatim>\<open>nn_resize\<close> then reproduces the image, but
  \<^verbatim>\<open>bilinear_resize\<close> samples with all weights zero and returns an image of zeros:
  both on a 2 x 2 x 1 image.
\<close>

theorem bilinear_resize_to_own_size_gives_zeros:
  "bilinear_resize [[0.1, 0.2, 0.3, 0.4]] \<lparr>im_w = 2, im_h = 2, im_c = 1, im_data = 0\<rparr> 2 2 =
     Inr ([[0.1, 0.2, 0.3, 0.4], [0, 0, 0, 0]], \<lparr>im_w = 2, im_h = 2, im_c = 1, im_data = 1\<rparr>) \<and>
   nn_resize [[0.1, 0.2, 0.3, 0.4]] \<lparr>im_w = 2, im_h = 2, im_c = 1, im_data = 0\<rparr> 2 2 =
     Inr ([[0.1, 0.2, 0.3, 0.4], [0.1, 0.2, 0.3, 0.4]], \<lparr>im_w = 2, im_h = 2, im_c = 1, im_data = 1\<rparr>)"
  by code_simp

section \<open>Shifting a channel above the last one\<close>

lemma for_each_unchanged:
  "(\<And>i. i \<in> set xs \<Longrightarrow> body i s = Inr s) \<Longrightarrow> for_each xs body s = Inr s"
  by (induction xs) simp_all

lemma set_range0: "set (range0 n) = {i. 0 \<le> i \<and> i < n}"
proof -
  have "i \<in> int ` {0..<nat n} \<longleftrightarrow> 0 \<le> i \<and> i < n" for i
  proof
    assume "i \<in> int ` {0..<nat n}"
    then show "0 \<le> i \<and> i < n" by auto
  next
    assume "0 \<le> i \<and> i < n"
    then have "i = int (nat i)" "nat i \<in> {0..<nat n}" by auto
    then show "i \<in> int ` {0..<nat n}" by blast
  qed
  then show ?thesis by (auto simp: range0_def)
qed

lemma get_pixel_channel_above:
  assumes "im_c im < c" "1 \<le> im_c im"
  shows "get_pixel hp im x y c = get_pixel hp im x y (im_c im - 1)"
  using assms by (simp add: get_pixel_def)

lemma set_pixel_channel_above:
  "im_c im < c \<Longrightarrow> set_pixel hp im x y c v = Inr hp"
  by (simp add: set_pixel_def)

text \<open>
  C10 (as amended). On a well-formed image that has at least one channel, or has no
  pixel at all (\<open>w = 0\<close> or \<open>h = 0\<close>), \<^verbatim>\<open>shift_image(im, c, v)\<close> with \<open>c > im.c\<close> returns
  with the store unchanged: every read is clamped to the last channel and every write
  is dropped by the channel check of \<^verbatim>\<open>set_pixel\<close>.
\<close>

theorem shift_image_channel_above:
  assumes wf: "wf_image hp im" and c: "im_c im < c"
      and ne: "1 \<le> im_c im \<or> im_w im = 0 \<or> im_h im = 0"
  shows "shift_image hp im c v = Inr hp"
proof (cases "1 \<le> im_c im")
  case True
  have step: "bnd (get_pixel hp im i j c) (\<lambda>p. set_pixel hp im i j c (p + v)) = Inr hp"
    if "i \<in> set (range0 (im_w im))" "j \<in> set (range0 (im_h im))" for i j
  proof -
    have "get_pixel hp im i j c = get_pixel hp im i j (im_c im - 1)"
      using c True by (rule get_pixel_channel_above)
    also have "\<dots> = Inr (hp ! im_data im ! nat (i + j * im_w im + im_w im * im_h im * (im_c im - 1)))"
      using that True wf by (intro get_pixel_in_range) (auto simp: set_range0)
    finally show ?thesis
      using c by (simp add: bnd_def set_pixel_channel_above)
  qed
  show ?thesis
    unfolding shift_image_def
    by (intro for_each_unchanged step)
next
  case False
  with ne have "range0 (im_w im) = [] \<or> range0 (im_h im) = []"
    by (auto simp: range0_def)
  then show ?thesis
    unfolding shift_image_def
    by (auto intro!: for_each_unchanged)
qed

theorem shift_image_channel_above_witness:
  "shift_image [[1, 2, 3, 4 :: int]] \<lparr>im_w = 2, im_h = 2, im_c = 1, im_data = 0\<rparr> 2 10 = Inr [[1, 2, 3, 4]]"
  using shift_image_channel_above [of "[[1, 2, 3, 4 :: int]]" "\<lparr>im_w = 2, im_h = 2, im_c = 1, im_data = 0\<rparr>" 2 10]
  by (simp add: wf_image_def)

text \<open>
  C10 as stated, for every image, fails on an image without channels: on the
  well-formed 1 x 1 x 0 image (an empty buffer) the read of \<^verbatim>\<open>get_pixel\<close> is clamped to
  channel 0 and leaves the buffer, before \<^verbatim>\<open>set_pixel\<close> is reached.
\<close>

theorem shift_image_no_channel_out_of_bounds:
  "wf_image [[] :: int list] \<lparr>im_w = 1, im_h = 1, im_c = 0, im_data = 0\<rparr> \<and>
   im_c \<lparr>im_w = 1, im_h = 1, im_c = 0, im_data = 0\<rparr> < 1 \<and>
   shift_image [[] :: int list] \<lparr>im_w = 1, im_h = 1, im_c = 0, im_data = 0\<rparr> 1 5 = Inl OutOfBounds"
  by (simp add: wf_image_def shift_image_def range0_def get_pixel_def load_def bnd_def)

section \<open>Copying an image\<close>

lemma load_appended_copy:
  "p < length hp \<Longrightarrow> load (hp @ [hp ! p]) (length hp) i = load hp p i"
  by (simp add: load_def)

lemma get_pixel_same_view:
  assumes "im_w a = im_w b" "im_h a = im_h b" "im_c a = im_c b"
      and "\<And>i. load hpa (im_data a) i = load hpb (im_data b) i"
  shows "get_pixel hpa a x y c = get_pixel hpb b x y c"
  unfolding get_pixel_def by (simp only: assms)

lemma set_pixel_cases:
  "set_pixel hp im x y c v = Inr hp' \<Longrightarrow> hp' = hp \<or> (\<exists>b. hp' = hp[im_data im := b])"
  unfolding set_pixel_def store_def
  by (simp split: if_splits) blast

lemma set_pixel_other_buffer:
  assumes "set_pixel hp im x y c v = Inr hp'" "p \<noteq> im_data im"
  shows "hp' ! p = hp ! p"
  using set_pixel_cases [OF assms(1)] assms(2) by auto

lemma copy_image_result:
  assumes wf: "wf_image hp im"
  shows "copy_image hp im = Inr (hp @ [hp ! im_data im], im\<lparr>im_data := length hp\<rparr>)"
proof -
  let ?n = "im_w im * im_h im * im_c im"
  have p: "im_data im < length hp" and len: "int (length (hp ! im_data im)) = ?n"
    and n: "0 \<le> ?n"
    using wf by (simp_all add: wf_image_def)
  have nat_n: "nat ?n = length (hp ! im_data im)"
    using len by simp
  have "memcpy (hp @ [replicate (nat ?n) 0]) (length hp) (im_data im) ?n =
          Inr (hp @ [hp ! im_data im])"
    using p n len unfolding memcpy_def nat_n by (simp add: nth_append)
  then show ?thesis
    by (simp add: copy_image_def make_image_def bnd_def)
qed

text \<open>
  C8. On a well-formed image \<^verbatim>\<open>copy_image\<close> returns, without fault, an image of the same
  dimensions over a new buffer that holds the same \<open>w * h * c\<close> samples; the buffers
  that existed before are as they were; \<^verbatim>\<open>get_pixel\<close> agrees on the copy and the
  original at every coordinate; and whatever \<^verbatim>\<open>set_pixel\<close> writes through the copy
  leaves the buffer of the original as it was, and the other way round.
\<close>

theorem copy_image_independent:
  assumes wf: "wf_image hp im"
  shows "case copy_image hp im of
           Inl e \<Rightarrow> False
         | Inr (hp', cp) \<Rightarrow>
             im_w cp = im_w im \<and> im_h cp = im_h im \<and> im_c cp = im_c im \<and>
             wf_image hp' cp \<and> wf_image hp' im \<and>
             hp' ! im_data cp = hp ! im_data im \<and>
             take (length hp) hp' = hp \<and>
             (\<forall>x y c. get_pixel hp' cp x y c = get_pixel hp im x y c) \<and>
             (\<forall>x y c v hp''. set_pixel hp' cp x y c v = Inr hp'' \<longrightarrow>
                             hp'' ! im_data im = hp ! im_data im) \<and>
             (\<forall>x y c v hp''. set_pixel hp' im x y c v = Inr hp'' \<longrightarrow>
                             hp'' ! im_data cp = hp ! im_data im)"
proof -
  let ?cp = "im\<lparr>im_data := length hp\<rparr>"
  let ?hp' = "hp @ [hp ! im_data im]"
  have p: "im_data im < length hp"
    using wf by (simp add: wf_image_def)
  have ne: "im_data ?cp \<noteq> im_data im" "im_data im \<noteq> im_data ?cp"
    using p by simp_all
  have wf_cp: "wf_image ?hp' ?cp" and wf_im: "wf_image ?hp' im"
    using wf by (simp_all add: wf_image_def nth_append)
  have same: "?hp' ! im_data ?cp = hp ! im_data im"
    by simp
  have old: "?hp' ! im_data im = hp ! im_data im"
    using p by (simp add: nth_append)
  have get: "get_pixel ?hp' ?cp x y c = get_pixel hp im x y c" for x y c
    by (rule get_pixel_same_view) (simp_all add: load_appended_copy [OF p])
  have set_cp: "hp'' ! im_data im = hp ! im_data im"
    if "set_pixel ?hp' ?cp x y c v = Inr hp''" for x y c v hp''
    using set_pixel_other_buffer [OF that ne(2)] old by simp
  have set_im: "hp'' ! im_data ?cp = hp ! im_data im"
    if "set_pixel ?hp' im x y c v = Inr hp''" for x y c v hp''
    using set_pixel_other_buffer [OF that ne(1)] same by simp
  have "im_w ?cp = im_w im \<and> im_h ?cp = im_h im \<and> im_c ?cp = im_c im \<and>
        wf_image ?hp' ?cp \<and> wf_image ?hp' im \<and>
        ?hp' ! im_data ?cp = hp ! im_data im \<and>
        take (length hp) ?hp' = hp \<and>
        (\<forall>x y c. get_pixel ?hp' ?cp x y c = get_pixel hp im x y c) \<and>
        (\<forall>x y c v hp''. set_pixel ?hp' ?cp x y c v = Inr hp'' \<longrightarrow>
                        hp'' ! im_data im = hp ! im_data im) \<and>
        (\<forall>x y c v hp''. set_pixel ?hp' im x y c v = Inr hp'' \<longrightarrow>
                        hp'' ! im_data ?cp = hp ! im_data im)"
    apply (intro conjI allI impI)
             apply simp
            apply simp
           apply simp
          apply (rule wf_cp)
         apply (rule wf_im)
        apply (rule same)
       apply simp
      apply (rule get)
     apply (erule set_cp)
    apply (erule set_im)
    done
  then show ?thesis
    unfolding copy_image_result [OF wf] by simp
qed

theorem copy_image_independent_witness:
  "wf_image [[1, 2 :: int]] \<lparr>im_w = 2, im_h = 1, im_c = 1, im_data = 0\<rparr> \<and>
   copy_image [[1, 2 :: int]] \<lparr>im_w = 2, im_h = 1, im_c = 1, im_data = 0\<rparr> =
     Inr ([[1, 2], [1, 2]], \<lparr>im_w = 2, im_h = 1, im_c = 1, im_data = 1\<rparr>) \<and>
   set_pixel [[1, 2], [1, 2 :: int]] \<lparr>im_w = 2, im_h = 1, im_c = 1, im_data = 1\<rparr> 0 0 0 9 =
     Inr [[1, 2], [9, 2]] \<and>
   set_pixel [[1, 2], [1, 2 :: int]] \<lparr>im_w = 2, im_h = 1, im_c = 1, im_data = 0\<rparr> 1 0 0 9 =
     Inr [[1, 9], [1, 2]]"
proof -
  have wf: "wf_image [[1, 2 :: int]] \<lparr>im_w = 2, im_h = 1, im_c = 1, im_data = 0\<rparr>"
    by (simp add: wf_image_def)
  have s: "set_pixel [[1, 2], [1, 2 :: int]] \<lparr>im_w = 2, im_h = 1, im_c = 1, im_data = 1\<rparr> 0 0 0 9 =
             Inr [[1, 2], [9, 2]]"
          "set_pixel [[1, 2], [1, 2 :: int]] \<lparr>im_w = 2, im_h = 1, im_c = 1, im_data = 0\<rparr> 1 0 0 9 =
             Inr [[1, 9], [1, 2]]"
    by (simp_all add: set_pixel_def store_def)
  have r: "copy_image [[1, 2 :: int]] \<lparr>im_w = 2, im_h = 1, im_c = 1, im_data = 0\<rparr> =
             Inr ([[1, 2], [1, 2]], \<lparr>im_w = 2, im_h = 1, im_c = 1, im_data = 1\<rparr>)"
    by (simp add: copy_image_def make_image_def memcpy_def bnd_def)
  have "wf_image [[1, 2], [1, 2 :: int]] \<lparr>im_w = 2, im_h = 1, im_c = 1, im_data = 1\<rparr>"
    using copy_image_independent [OF wf] unfolding r by simp
  with wf r s show ?thesis by simp
qed

section \<open>Loops over the pixels of a buffer\<close>

lemma bnd_Inr [simp]: "bnd (Inr a) f = f a"
  by (simp add: bnd_def)

lemma bnd_Inl [simp]: "bnd (Inl e) f = Inl e"
  by (simp add: bnd_def)

lemma for_each_append:
  "for_each (xs @ ys) body s = bnd (for_each xs body s) (for_each ys body)"
  by (induction xs arbitrary: s) (simp_all split: sum.splits)

lemma for_each_map:
  "for_each (map f xs) body s = for_each xs (\<lambda>i. body (f i)) s"
  by (induction xs arbitrary: s) (simp_all split: sum.splits)

lemma for_each_product:
  "for_each xs (\<lambda>i. for_each ys (body i)) =
     for_each (List.product xs ys) (\<lambda>(i, j). body i j)"
proof
  fix s
  show "for_each xs (\<lambda>i. for_each ys (body i)) s =
          for_each (List.product xs ys) (\<lambda>(i, j). body i j) s"
  proof (induction xs arbitrary: s)
    case Nil
    show ?case by simp
  next
    case (Cons x xs)
    show ?case
      by (simp add: for_each_append for_each_map Cons.IH bnd_def split: sum.splits)
  qed
qed

lemma for_each_product3:
  "for_each xs (\<lambda>i. for_each ys (\<lambda>j. for_each zs (body i j))) =
     for_each (List.product xs (List.product ys zs)) (\<lambda>(i, j, k). body i j k)"
proof -
  have "for_each xs (\<lambda>i. for_each ys (\<lambda>j. for_each zs (body i j))) =
        for_each xs (\<lambda>i. for_each (List.product ys zs) (\<lambda>(j, k). body i j k))"
    by (simp only: for_each_product [where ys = zs])
  also have "\<dots> = for_each (List.product xs (List.product ys zs))
                       (\<lambda>(i, p). (\<lambda>(j, k). body i j k) p)"
    by (rule for_each_product)
  finally show ?thesis by simp
qed

lemma distinct_range0: "distinct (range0 n)"
  by (simp add: range0_def distinct_map)

text \<open>A loop whose iterations rewrite disjoint blocks of one buffer, each iteration
  depending on its own block only, computes every block from the initial buffer.\<close>

lemma for_each_blocks:
  fixes upd :: "'i \<Rightarrow> 'a list \<Rightarrow> 'a list" and blk :: "'i \<Rightarrow> nat set"
  assumes dist: "distinct xs"
    and body: "\<And>i b. i \<in> set xs \<Longrightarrow> length b = N \<Longrightarrow>
                 body i (hp[d := b]) = Inr (hp[d := upd i b])"
    and len: "\<And>i b. i \<in> set xs \<Longrightarrow> length b = N \<Longrightarrow> length (upd i b) = N"
    and frame: "\<And>i b n. i \<in> set xs \<Longrightarrow> length b = N \<Longrightarrow> n \<notin> blk i \<Longrightarrow> n < N \<Longrightarrow>
                 upd i b ! n = b ! n"
    and foot: "\<And>i b1 b2 n. i \<in> set xs \<Longrightarrow> length b1 = N \<Longrightarrow> length b2 = N \<Longrightarrow>
                 (\<And>m. m \<in> blk i \<Longrightarrow> m < N \<Longrightarrow> b1 ! m = b2 ! m) \<Longrightarrow> n \<in> blk i \<Longrightarrow> n < N \<Longrightarrow>
                 upd i b1 ! n = upd i b2 ! n"
    and disj: "\<And>i j. i \<in> set xs \<Longrightarrow> j \<in> set xs \<Longrightarrow> i \<noteq> j \<Longrightarrow> blk i \<inter> blk j = {}"
    and b0: "length b0 = N"
  shows "\<exists>b'. for_each xs body (hp[d := b0]) = Inr (hp[d := b']) \<and> length b' = N \<and>
           (\<forall>i n. i \<in> set xs \<and> n \<in> blk i \<and> n < N \<longrightarrow> b' ! n = upd i b0 ! n) \<and>
           (\<forall>n. n < N \<and> (\<forall>i. i \<in> set xs \<longrightarrow> n \<notin> blk i) \<longrightarrow> b' ! n = b0 ! n)"
  using assms
proof (induction xs arbitrary: b0)
  case Nil
  show ?case using Nil.prems(7) by (intro exI [of _ b0]) simp
next
  case (Cons x xs)
  let ?b1 = "upd x b0"
  have x: "x \<in> set (x # xs)" by simp
  have sub: "i \<in> set (x # xs)" if "i \<in> set xs" for i using that by simp
  have b1: "length ?b1 = N"
    using Cons.prems(3) [OF x Cons.prems(7)] .
  have step: "body x (hp[d := b0]) = Inr (hp[d := ?b1])"
    using Cons.prems(2) [OF x Cons.prems(7)] .
  have "\<exists>b'. for_each xs body (hp[d := ?b1]) = Inr (hp[d := b']) \<and> length b' = N \<and>
           (\<forall>i n. i \<in> set xs \<and> n \<in> blk i \<and> n < N \<longrightarrow> b' ! n = upd i ?b1 ! n) \<and>
           (\<forall>n. n < N \<and> (\<forall>i. i \<in> set xs \<longrightarrow> n \<notin> blk i) \<longrightarrow> b' ! n = ?b1 ! n)"
  proof (rule Cons.IH)
    show "distinct xs" using Cons.prems(1) by simp
    show "length ?b1 = N" by (rule b1)
    show "body i (hp[d := b]) = Inr (hp[d := upd i b])"
      if "i \<in> set xs" "length b = N" for i b
      using Cons.prems(2) [OF sub [OF that(1)] that(2)] .
    show "length (upd i b) = N" if "i \<in> set xs" "length b = N" for i b
      using Cons.prems(3) [OF sub [OF that(1)] that(2)] .
    show "upd i b ! n = b ! n"
      if "i \<in> set xs" "length b = N" "n \<notin> blk i" "n < N" for i b n
      using Cons.prems(4) [OF sub [OF that(1)] that(2-4)] .
    show "upd i b1 ! n = upd i b2 ! n"
      if "i \<in> set xs" "length b1 = N" "length b2 = N"
        "\<And>m. m \<in> blk i \<Longrightarrow> m < N \<Longrightarrow> b1 ! m = b2 ! m" "n \<in> blk i" "n < N" for i b1 b2 n
      using Cons.prems(5) [OF sub [OF that(1)] that(2-6)] .
    show "blk i \<inter> blk j = {}" if "i \<in> set xs" "j \<in> set xs" "i \<noteq> j" for i j
      using Cons.prems(6) [OF sub [OF that(1)] sub [OF that(2)] that(3)] .
  qed
  then obtain b' where run: "for_each xs body (hp[d := ?b1]) = Inr (hp[d := b'])"
    and lb': "length b' = N"
    and inb: "\<And>i n. i \<in> set xs \<Longrightarrow> n \<in> blk i \<Longrightarrow> n < N \<Longrightarrow> b' ! n = upd i ?b1 ! n"
    and outb: "\<And>n. n < N \<Longrightarrow> (\<And>i. i \<in> set xs \<Longrightarrow> n \<notin> blk i) \<Longrightarrow> b' ! n = ?b1 ! n"
    by blast
  have notin: "x \<notin> set xs" using Cons.prems(1) by simp
  have P1: "b' ! n = upd i b0 ! n" if i: "i \<in> set (x # xs)" and n: "n \<in> blk i" "n < N" for i n
  proof (cases "i = x")
    case True
    have "\<And>j. j \<in> set xs \<Longrightarrow> n \<notin> blk j"
    proof -
      fix j assume j: "j \<in> set xs"
      then have "j \<noteq> x" using notin by auto
      then have "blk x \<inter> blk j = {}"
        using Cons.prems(6) [OF x sub [OF j]] by auto
      then show "n \<notin> blk j" using n True by auto
    qed
    then have "b' ! n = ?b1 ! n" by (rule outb [OF n(2)])
    then show ?thesis using True by simp
  next
    case False
    then have ixs: "i \<in> set xs" using i by simp
    have d0: "blk i \<inter> blk x = {}"
      using Cons.prems(6) [OF i x False] .
    have "upd i ?b1 ! n = upd i b0 ! n"
    proof (rule Cons.prems(5) [OF i b1 Cons.prems(7) _ n])
      fix m assume m: "m \<in> blk i" "m < N"
      then have "m \<notin> blk x" using d0 by auto
      then show "?b1 ! m = b0 ! m"
        using Cons.prems(4) [OF x Cons.prems(7) _ m(2)] by simp
    qed
    then show ?thesis using inb [OF ixs n] by simp
  qed
  have P2: "b' ! n = b0 ! n" if n: "n < N" and out: "\<And>i. i \<in> set (x # xs) \<Longrightarrow> n \<notin> blk i" for n
  proof -
    have "b' ! n = ?b1 ! n" using outb [OF n] out [OF sub] by simp
    also have "\<dots> = b0 ! n"
      using Cons.prems(4) [OF x Cons.prems(7) out [OF x] n] .
    finally show ?thesis .
  qed
  have "for_each (x # xs) body (hp[d := b0]) = Inr (hp[d := b'])"
    using step run by simp
  moreover have "\<forall>i n. i \<in> set (x # xs) \<and> n \<in> blk i \<and> n < N \<longrightarrow> b' ! n = upd i b0 ! n"
    using P1 by (intro allI impI) (elim conjE)
  moreover have "\<forall>n. n < N \<and> (\<forall>i. i \<in> set (x # xs) \<longrightarrow> n \<notin> blk i) \<longrightarrow> b' ! n = b0 ! n"
  proof (intro allI impI)
    fix n assume a: "n < N \<and> (\<forall>i. i \<in> set (x # xs) \<longrightarrow> n \<notin> blk i)"
    show "b' ! n = b0 ! n"
    proof (rule P2)
      show "n < N" using a by (rule conjunct1)
      show "n \<notin> blk i" if "i \<in> set (x # xs)" for i
        using a that by (elim conjE allE [of _ i] impE)
    qed
  qed
  ultimately show ?case
    using lb' by (intro exI [of _ b'] conjI)
qed

lemma offset_cover:
  fixes n W H C :: int
  assumes n: "0 \<le> n" "n < W * H * C" and W: "0 \<le> W" and H: "0 \<le> H"
  shows "\<exists>x y c. 0 \<le> x \<and> x < W \<and> 0 \<le> y \<and> y < H \<and> 0 \<le> c \<and> c < C \<and>
           n = x + y * W + W * H * c"
proof -
  have Wp: "0 < W" using n W by (cases "W = 0") auto
  have Hp: "0 < H" using n H by (cases "H = 0") auto
  define x where "x = n mod W"
  define q where "q = n div W"
  define y where "y = q mod H"
  define c where "c = q div H"
  have q: "0 \<le> q" using n Wp by (simp add: q_def pos_imp_zdiv_nonneg_iff)
  have c0: "0 \<le> c" using q Hp by (simp add: c_def pos_imp_zdiv_nonneg_iff)
  have e1: "n = x + q * W" by (simp add: x_def q_def)
  have e2: "q = y + c * H" by (simp add: y_def c_def)
  have eq: "n = x + y * W + W * H * c"
    unfolding e1 e2 by (simp add: algebra_simps)
  have x: "0 \<le> x" "x < W" using Wp by (simp_all add: x_def)
  have y: "0 \<le> y" "y < H" using Hp by (simp_all add: y_def)
  have "c < C"
  proof (rule ccontr)
    assume "\<not> c < C"
    then have "C \<le> c" by simp
    then have "W * H * C \<le> W * H * c"
      using Wp Hp by (intro mult_left_mono) auto
    also have "\<dots> \<le> x + y * W + W * H * c"
      using x y Wp by simp
    also have "\<dots> = n" using eq by simp
    finally show False using n by simp
  qed
  with x y c0 eq show ?thesis by blast
qed

lemma heap_update_nth: "d < length hp \<Longrightarrow> (hp[d := b]) ! d = b"
  by simp

lemma wf_image_buffer:
  "wf_image hp im \<Longrightarrow> length b = length (hp ! im_data im) \<Longrightarrow> wf_image (hp[im_data im := b]) im"
  by (simp add: wf_image_def)

lemma get_pixel_buffer:
  assumes wf: "wf_image hp im" and b: "length b = length (hp ! im_data im)"
    and r: "0 \<le> x" "x < im_w im" "0 \<le> y" "y < im_h im" "0 \<le> c" "c < im_c im"
  shows "get_pixel (hp[im_data im := b]) im x y c =
           Inr (b ! nat (x + y * im_w im + im_w im * im_h im * c))"
proof -
  have "im_data im < length hp" using wf by (simp add: wf_image_def)
  then show ?thesis
    using get_pixel_in_range [OF wf_image_buffer [OF wf b] r] by simp
qed

lemma set_pixel_buffer:
  assumes wf: "wf_image hp im" and b: "length b = length (hp ! im_data im)"
    and r: "0 \<le> x" "x < im_w im" "0 \<le> y" "y < im_h im" "0 \<le> c" "c < im_c im"
  shows "set_pixel (hp[im_data im := b]) im x y c v =
           Inr (hp[im_data im := b[nat (x + y * im_w im + im_w im * im_h im * c) := v]])"
proof -
  have "im_data im < length hp" using wf by (simp add: wf_image_def)
  then show ?thesis
    using set_pixel_in_range [OF wf_image_buffer [OF wf b] r] by simp
qed

lemma offset_in_buffer:
  assumes wf: "wf_image hp im"
    and r: "0 \<le> x" "x < im_w im" "0 \<le> y" "y < im_h im" "0 \<le> c" "c < im_c im"
  shows "nat (x + y * im_w im + im_w im * im_h im * c) < length (hp ! im_data im)"
proof -
  have "x + y * im_w im + im_w im * im_h im * c < im_w im * im_h im * im_c im"
    using r by (intro offset_less) auto
  then show ?thesis using wf r by (simp add: wf_image_def nat_less_iff)
qed

lemma clamp_body:
  assumes wf: "wf_image hp im" and b: "length b = length (hp ! im_data im)"
    and r: "0 \<le> i" "i < im_w im" "0 \<le> j" "j < im_h im" "0 \<le> c" "c < im_c im"
  shows "bnd (get_pixel (hp[im_data im := b]) im i j c) (\<lambda>p.
         bnd (if sample_less (Finite 1) p
              then set_pixel (hp[im_data im := b]) im i j c (Finite 1)
              else Inr (hp[im_data im := b])) (\<lambda>s1.
         bnd (get_pixel s1 im i j c) (\<lambda>q.
           if sample_less q (Finite 0) then set_pixel s1 im i j c (Finite 0) else Inr s1))) =
         Inr (hp[im_data im :=
               b[nat (i + j * im_w im + im_w im * im_h im * c) :=
                   clamp01 (b ! nat (i + j * im_w im + im_w im * im_h im * c))]])"
proof -
  let ?k = "nat (i + j * im_w im + im_w im * im_h im * c)"
  have k: "?k < length b"
    using offset_in_buffer [OF wf r] b by simp
  have g: "get_pixel (hp[im_data im := b]) im i j c = Inr (b ! ?k)"
    by (rule get_pixel_buffer [OF wf b r])
  show ?thesis
  proof (cases "sample_less (Finite 1) (b ! ?k)")
    case True
    have b1: "length (b[?k := Finite 1]) = length (hp ! im_data im)" using b by simp
    have s: "set_pixel (hp[im_data im := b]) im i j c (Finite 1) =
               Inr (hp[im_data im := b[?k := Finite 1]])"
      by (rule set_pixel_buffer [OF wf b r])
    have g1: "get_pixel (hp[im_data im := b[?k := Finite 1]]) im i j c = Inr (Finite 1)"
      using get_pixel_buffer [OF wf b1 r] k by simp
    show ?thesis using True g s g1 by (simp add: clamp01_def)
  next
    case False
    show ?thesis
    proof (cases "sample_less (b ! ?k) (Finite 0)")
      case True
      have s: "set_pixel (hp[im_data im := b]) im i j c (Finite 0) =
                 Inr (hp[im_data im := b[?k := Finite 0]])"
        by (rule set_pixel_buffer [OF wf b r])
      show ?thesis using True False g s by (simp add: clamp01_def)
    next
      case F2: False
      show ?thesis using False F2 g by (simp add: clamp01_def)
    qed
  qed
qed

section \<open>Clamping\<close>

lemma clamp_image_result:
  assumes wf: "wf_image hp im"
  shows "clamp_image hp im = Inr (hp[im_data im := map clamp01 (hp ! im_data im)])"
proof -
  let ?d = "im_data im" and ?W = "im_w im" and ?H = "im_h im" and ?C = "im_c im"
  let ?N = "length (hp ! ?d)"
  let ?xs = "List.product (range0 ?W) (List.product (range0 ?H) (range0 ?C))"
  define off where "off = (\<lambda>(i, j, c). nat (i + j * ?W + ?W * ?H * c))"
  define blk where "blk = (\<lambda>t. {off t})"
  define upd where "upd = (\<lambda>t (b :: sample list). b[off t := clamp01 (b ! off t)])"
  define body where "body = (\<lambda>(i, j, c) (s :: sample heap).
     bnd (get_pixel s im i j c) (\<lambda>p.
     bnd (if sample_less (Finite 1) p then set_pixel s im i j c (Finite 1) else Inr s) (\<lambda>s1.
     bnd (get_pixel s1 im i j c) (\<lambda>q.
       if sample_less q (Finite 0) then set_pixel s1 im i j c (Finite 0) else Inr s1))))"
  have d: "?d < length hp" and dims: "0 \<le> ?W" "0 \<le> ?H" "0 \<le> ?C"
    and len: "int ?N = ?W * ?H * ?C"
    using wf by (simp_all add: wf_image_def)
  have valid: "0 \<le> i \<and> i < ?W \<and> 0 \<le> j \<and> j < ?H \<and> 0 \<le> c \<and> c < ?C"
    if "(i, j, c) \<in> set ?xs" for i j c
    using that by (simp add: set_range0)
  have run: "clamp_image hp im = for_each ?xs body hp"
    unfolding clamp_image_def body_def by (simp only: for_each_product3)
  have "\<exists>b'. for_each ?xs body (hp[?d := hp ! ?d]) = Inr (hp[?d := b']) \<and> length b' = ?N \<and>
           (\<forall>t n. t \<in> set ?xs \<and> n \<in> blk t \<and> n < ?N \<longrightarrow> b' ! n = upd t (hp ! ?d) ! n) \<and>
           (\<forall>n. n < ?N \<and> (\<forall>t. t \<in> set ?xs \<longrightarrow> n \<notin> blk t) \<longrightarrow> b' ! n = hp ! ?d ! n)"
  proof (rule for_each_blocks)
    show "distinct ?xs"
      by (intro distinct_product distinct_range0)
    show "length (hp ! ?d) = ?N" by simp
    show "body t (hp[?d := b]) = Inr (hp[?d := upd t b])"
      if "t \<in> set ?xs" "length b = ?N" for t b
    proof -
      obtain i j c where t: "t = (i, j, c)" by (cases t) auto
      have v: "0 \<le> i" "i < ?W" "0 \<le> j" "j < ?H" "0 \<le> c" "c < ?C"
        using valid that(1) unfolding t by blast+
      show ?thesis
        unfolding t body_def upd_def off_def prod.case
        by (rule clamp_body [OF wf that(2) v])
    qed
    show "length (upd t b) = ?N" if "t \<in> set ?xs" "length b = ?N" for t b
      using that by (simp add: upd_def)
    show "upd t b ! n = b ! n"
      if "t \<in> set ?xs" "length b = ?N" "n \<notin> blk t" "n < ?N" for t b n
      using that by (simp add: upd_def blk_def)
    show "upd t b1 ! n = upd t b2 ! n"
      if "t \<in> set ?xs" "length b1 = ?N" "length b2 = ?N"
        "\<And>m. m \<in> blk t \<Longrightarrow> m < ?N \<Longrightarrow> b1 ! m = b2 ! m" "n \<in> blk t" "n < ?N" for t b1 b2 n
    proof -
      have n: "n = off t" using that(5) by (simp add: blk_def)
      have "b1 ! n = b2 ! n" using that(4) [OF that(5) that(6)] .
      then show ?thesis using that(2,3,6) unfolding n by (simp add: upd_def)
    qed
    show "blk t \<inter> blk u = {}" if "t \<in> set ?xs" "u \<in> set ?xs" "t \<noteq> u" for t u
    proof -
      obtain i j c where t: "t = (i, j, c)" by (cases t) auto
      obtain i' j' c' where u: "u = (i', j', c')" by (cases u) auto
      have v: "0 \<le> i" "i < ?W" "0 \<le> j" "j < ?H" "0 \<le> c" "c < ?C"
        using valid that(1) unfolding t by blast+
      have v': "0 \<le> i'" "i' < ?W" "0 \<le> j'" "j' < ?H" "0 \<le> c'" "c' < ?C"
        using valid that(2) unfolding u by blast+
      have "off t \<noteq> off u"
      proof
        assume "off t = off u"
        then have "i + j * ?W + ?W * ?H * c = i' + j' * ?W + ?W * ?H * c'"
          using v v' dims unfolding t u off_def prod.case by (simp add: nat_eq_iff)
        then have "i = i' \<and> j = j' \<and> c = c'"
          using v v' by (intro offset_inj [where W = ?W and H = ?H]) auto
        then show False using that(3) t u by simp
      qed
      then show ?thesis by (simp add: blk_def)
    qed
  qed
  then obtain b' where r: "for_each ?xs body (hp[?d := hp ! ?d]) = Inr (hp[?d := b'])"
    and lb: "length b' = ?N"
    and inb: "\<And>t n. t \<in> set ?xs \<Longrightarrow> n \<in> blk t \<Longrightarrow> n < ?N \<Longrightarrow> b' ! n = upd t (hp ! ?d) ! n"
    by blast
  have "b' = map clamp01 (hp ! ?d)"
  proof (rule nth_equalityI)
    show "length b' = length (map clamp01 (hp ! ?d))" using lb by simp
  next
    fix n assume "n < length b'"
    then have n: "n < ?N" using lb by simp
    then have "0 \<le> int n" "int n < ?W * ?H * ?C" using len by simp_all
    then obtain x y c where v: "0 \<le> x" "x < ?W" "0 \<le> y" "y < ?H" "0 \<le> c" "c < ?C"
      and e: "int n = x + y * ?W + ?W * ?H * c"
      using offset_cover [OF _ _ dims(1,2)] by blast
    have mem: "(x, y, c) \<in> set ?xs" using v by (simp add: set_range0)
    have o: "off (x, y, c) = n" unfolding off_def prod.case e [symmetric] by simp
    have "b' ! n = upd (x, y, c) (hp ! ?d) ! n"
      using inb [OF mem _ n] o by (simp add: blk_def)
    also have "\<dots> = clamp01 (hp ! ?d ! n)"
      using n o by (simp add: upd_def)
    finally show "b' ! n = map clamp01 (hp ! ?d) ! n" using n by simp
  qed
  then show ?thesis using run r by simp
qed

lemma clamp01_in_unit: "v \<noteq> NaN \<Longrightarrow> in_unit (clamp01 v)"
  by (cases v) (simp_all add: clamp01_def in_unit_def)

lemma clamp01_NaN: "clamp01 v = NaN \<longleftrightarrow> v = NaN"
  by (cases v) (simp_all add: clamp01_def)

lemma clamp01_idem: "clamp01 (clamp01 v) = clamp01 v"
  by (cases v) (simp_all add: clamp01_def)

text \<open>
  C7 (as amended). On a well-formed image \<^verbatim>\<open>clamp_image\<close> returns without fault, and a
  second \<^verbatim>\<open>clamp_image\<close> returns the very same store, whatever the samples are.
  Afterwards every sample that is not NaN lies in \<open>[0, 1]\<close>, so on an image without a NaN
  sample every sample does: each sample is the old one with values above 1 (also
  \<open>+\<infinity>\<close>) replaced by 1 and values below 0 (also \<open>-\<infinity>\<close>) by 0, and a NaN sample is left
  as it is. No other buffer changes.
\<close>

theorem clamp_image_idempotent:
  assumes wf: "wf_image hp im"
  shows "case clamp_image hp im of
           Inl e \<Rightarrow> False
         | Inr hp1 \<Rightarrow>
             clamp_image hp1 im = Inr hp1 \<and>
             (\<forall>v \<in> set (hp1 ! im_data im). v \<noteq> NaN \<longrightarrow> in_unit v) \<and>
             (NaN \<notin> set (hp ! im_data im) \<longrightarrow> (\<forall>v \<in> set (hp1 ! im_data im). in_unit v)) \<and>
             hp1 ! im_data im = map clamp01 (hp ! im_data im) \<and>
             wf_image hp1 im \<and> length hp1 = length hp \<and>
             (\<forall>p. p \<noteq> im_data im \<longrightarrow> hp1 ! p = hp ! p)"
proof -
  let ?d = "im_data im"
  let ?hp1 = "hp[?d := map clamp01 (hp ! ?d)]"
  have d: "?d < length hp" using wf by (simp add: wf_image_def)
  have wf1: "wf_image ?hp1 im"
    using wf by (intro wf_image_buffer) simp_all
  have buf: "?hp1 ! ?d = map clamp01 (hp ! ?d)" using d by simp
  have "clamp_image ?hp1 im = Inr (?hp1[?d := map clamp01 (?hp1 ! ?d)])"
    by (rule clamp_image_result [OF wf1])
  also have "?hp1[?d := map clamp01 (?hp1 ! ?d)] = ?hp1"
    unfolding buf by (simp add: clamp01_idem comp_def)
  finally have again: "clamp_image ?hp1 im = Inr ?hp1" .
  have range: "\<forall>v \<in> set (?hp1 ! ?d). v \<noteq> NaN \<longrightarrow> in_unit v"
    unfolding buf using clamp01_in_unit clamp01_NaN by auto
  have clean: "NaN \<notin> set (hp ! ?d) \<longrightarrow> (\<forall>v \<in> set (?hp1 ! ?d). in_unit v)"
  proof (intro impI ballI)
    fix v assume n: "NaN \<notin> set (hp ! ?d)" and "v \<in> set (?hp1 ! ?d)"
    then obtain u where u: "u \<in> set (hp ! ?d)" "v = clamp01 u"
      unfolding buf by auto
    from u(1) n have "u \<noteq> NaN" by auto
    then show "in_unit v" unfolding u(2) by (rule clamp01_in_unit)
  qed
  have other: "\<forall>p. p \<noteq> ?d \<longrightarrow> ?hp1 ! p = hp ! p" by simp
  have len: "length ?hp1 = length hp" by simp
  show ?thesis
    unfolding clamp_image_result [OF wf] sum.case
    apply (intro conjI)
          apply (rule again)
         apply (rule range)
        apply (rule clean)
       apply (rule buf)
      apply (rule wf1)
     apply (rule len)
    apply (rule other)
    done
qed

theorem clamp_image_idempotent_witness:
  "wf_image [[Finite 2, Finite (- 1), Finite (1 / 2), PosInf]]
     \<lparr>im_w = 2, im_h = 2, im_c = 1, im_data = 0\<rparr> \<and>
   clamp_image [[Finite 2, Finite (- 1), Finite (1 / 2), PosInf]]
     \<lparr>im_w = 2, im_h = 2, im_c = 1, im_data = 0\<rparr> =
     Inr [[Finite 1, Finite 0, Finite (1 / 2), Finite 1]] \<and>
   clamp_image [[Finite 1, Finite 0, Finite (1 / 2), Finite 1]]
     \<lparr>im_w = 2, im_h = 2, im_c = 1, im_data = 0\<rparr> =
     Inr [[Finite 1, Finite 0, Finite (1 / 2), Finite 1]] \<and>
   in_unit (Finite 1) \<and> in_unit (Finite 0) \<and> in_unit (Finite (1 / 2))"
proof -
  have wf: "wf_image [[Finite 2, Finite (- 1), Finite (1 / 2), PosInf]]
              \<lparr>im_w = 2, im_h = 2, im_c = 1, im_data = 0\<rparr>"
    by (simp add: wf_image_def)
  have r: "clamp_image [[Finite 2, Finite (- 1), Finite (1 / 2), PosInf]]
             \<lparr>im_w = 2, im_h = 2, im_c = 1, im_data = 0\<rparr> =
             Inr [[Finite 1, Finite 0, Finite (1 / 2), Finite 1]]"
    by code_simp
  have "clamp_image [[Finite 1, Finite 0, Finite (1 / 2), Finite 1]]
          \<lparr>im_w = 2, im_h = 2, im_c = 1, im_data = 0\<rparr> =
          Inr [[Finite 1, Finite 0, Finite (1 / 2), Finite 1]] \<and>
        in_unit (Finite 1) \<and> in_unit (Finite 0) \<and> in_unit (Finite (1 / 2))"
    using clamp_image_idempotent [OF wf] unfolding r by (simp add: clamp01_def in_unit_def)
  with wf r show ?thesis by simp
qed

text \<open>
  C7 as stated, for every image, fails on a NaN sample: \<^verbatim>\<open>NaN > 1\<close> and \<^verbatim>\<open>NaN < 0\<close> are
  both false, so \<^verbatim>\<open>clamp_image\<close> leaves the sample as NaN, which does not lie in
  \<open>[0, 1]\<close>.
\<close>

theorem clamp_image_keeps_nan:
  "wf_image [[NaN, Finite 2]] \<lparr>im_w = 2, im_h = 1, im_c = 1, im_data = 0\<rparr> \<and>
   clamp_image [[NaN, Finite 2]] \<lparr>im_w = 2, im_h = 1, im_c = 1, im_data = 0\<rparr> =
     Inr [[NaN, Finite 1]] \<and>
   \<not> (\<forall>v \<in> set ([[NaN, Finite 1]] ! 0). in_unit v)"
proof -
  have "clamp_image [[NaN, Finite 2]] \<lparr>im_w = 2, im_h = 1, im_c = 1, im_data = 0\<rparr> =
          Inr [[NaN, Finite 1]]"
    by code_simp
  then show ?thesis by (simp add: wf_image_def in_unit_def)
qed

section \<open>Grayscale conversion\<close>

lemma rgb_to_grayscale_result:
  assumes wf: "wf_image hp im" and c3: "im_c im = 3"
  shows "\<exists>gb. rgb_to_grayscale hp im =
                Inr (hp @ [gb], \<lparr>im_w = im_w im, im_h = im_h im, im_c = 1, im_data = length hp\<rparr>) \<and>
              int (length gb) = im_w im * im_h im \<and>
              (\<forall>i j. 0 \<le> i \<and> i < im_w im \<and> 0 \<le> j \<and> j < im_h im \<longrightarrow>
                 gb ! nat (i + j * im_w im) =
                   hp ! im_data im ! nat (i + j * im_w im + im_w im * im_h im * 0) * 0.299 +
                   hp ! im_data im ! nat (i + j * im_w im + im_w im * im_h im * 1) * 0.587 +
                   hp ! im_data im ! nat (i + j * im_w im + im_w im * im_h im * 2) * 0.114)"
proof -
  let ?d = "im_data im" and ?W = "im_w im" and ?H = "im_h im"
  let ?g = "length hp"
  let ?N = "nat (?W * ?H)"
  let ?gray = "\<lparr>im_w = ?W, im_h = ?H, im_c = 1, im_data = ?g\<rparr>"
  let ?z = "replicate (nat (?W * ?H * 1)) (0 :: real)"
  let ?hp1 = "hp @ [?z]"
  let ?xs = "List.product (range0 ?W) (range0 ?H)"
  define luma where "luma = (\<lambda>(i, j).
     hp ! ?d ! nat (i + j * ?W + ?W * ?H * 0) * 0.299 +
     hp ! ?d ! nat (i + j * ?W + ?W * ?H * 1) * 0.587 +
     hp ! ?d ! nat (i + j * ?W + ?W * ?H * 2) * 0.114)"
  define off where "off = (\<lambda>(i, j). nat (i + j * ?W + ?W * ?H * 0))"
  define blk where "blk = (\<lambda>t. {off t})"
  define upd where "upd = (\<lambda>t (b :: real list). b[off t := luma t])"
  define body where "body = (\<lambda>(i, j) (s :: real heap).
     bnd (get_pixel s im i j 0) (\<lambda>red.
     bnd (get_pixel s im i j 1) (\<lambda>green.
     bnd (get_pixel s im i j 2) (\<lambda>blue.
       set_pixel s ?gray i j 0 (red * 0.299 + green * 0.587 + blue * 0.114)))))"
  have d: "?d < length hp" and dims: "0 \<le> ?W" "0 \<le> ?H"
    using wf by (simp_all add: wf_image_def)
  have WH: "0 \<le> ?W * ?H" using dims by simp
  have valid: "0 \<le> i \<and> i < ?W \<and> 0 \<le> j \<and> j < ?H" if "(i, j) \<in> set ?xs" for i j
    using that by (simp add: set_range0)
  have upd_heap: "?hp1[?g := b] = hp @ [b]" for b by simp
  have run: "rgb_to_grayscale hp im = bnd (for_each ?xs body ?hp1) (\<lambda>hp2. Inr (hp2, ?gray))"
    unfolding rgb_to_grayscale_def body_def make_image_def
    by (simp only: for_each_product c3 Let_def prod.case) simp
  have "\<exists>b'. for_each ?xs body (?hp1[?g := ?z]) = Inr (?hp1[?g := b']) \<and> length b' = ?N \<and>
           (\<forall>t n. t \<in> set ?xs \<and> n \<in> blk t \<and> n < ?N \<longrightarrow> b' ! n = upd t ?z ! n) \<and>
           (\<forall>n. n < ?N \<and> (\<forall>t. t \<in> set ?xs \<longrightarrow> n \<notin> blk t) \<longrightarrow> b' ! n = ?z ! n)"
  proof (rule for_each_blocks)
    show "distinct ?xs"
      by (intro distinct_product distinct_range0)
    show "length ?z = ?N" by simp
    show "body t (?hp1[?g := b]) = Inr (?hp1[?g := upd t b])"
      if "t \<in> set ?xs" "length b = ?N" for t b
    proof -
      obtain i j where t: "t = (i, j)" by (cases t) auto
      have v: "0 \<le> i" "i < ?W" "0 \<le> j" "j < ?H"
        using valid that(1) unfolding t by blast+
      have wf_im: "wf_image (hp @ [b]) im"
        using wf by (simp add: wf_image_def nth_append)
      have wf_g: "wf_image (hp @ [b]) ?gray"
        using that(2) dims WH by (simp add: wf_image_def)
      have g: "get_pixel (hp @ [b]) im i j c =
                 Inr (hp ! ?d ! nat (i + j * ?W + ?W * ?H * c))" if "0 \<le> c" "c < 3" for c
        using get_pixel_in_range [OF wf_im v that(1)] that(2) c3 d by (simp add: nth_append)
      have s: "set_pixel (hp @ [b]) ?gray i j 0 x =
                 Inr (hp @ [b[nat (i + j * ?W + ?W * ?H * 0) := x]])" for x
        using set_pixel_in_range [OF wf_g, of i j 0 x] v by simp
      show ?thesis
        unfolding upd_heap t body_def upd_def off_def luma_def prod.case
        by (simp add: g s)
    qed
    show "length (upd t b) = ?N" if "t \<in> set ?xs" "length b = ?N" for t b
      using that by (simp add: upd_def)
    show "upd t b ! n = b ! n"
      if "t \<in> set ?xs" "length b = ?N" "n \<notin> blk t" "n < ?N" for t b n
      using that by (simp add: upd_def blk_def)
    show "upd t b1 ! n = upd t b2 ! n"
      if "t \<in> set ?xs" "length b1 = ?N" "length b2 = ?N"
        "\<And>m. m \<in> blk t \<Longrightarrow> m < ?N \<Longrightarrow> b1 ! m = b2 ! m" "n \<in> blk t" "n < ?N" for t b1 b2 n
    proof -
      have n: "n = off t" using that(5) by (simp add: blk_def)
      show ?thesis using that(2,3,6) unfolding n by (simp add: upd_def)
    qed
    show "blk t \<inter> blk u = {}" if "t \<in> set ?xs" "u \<in> set ?xs" "t \<noteq> u" for t u
    proof -
      obtain i j where t: "t = (i, j)" by (cases t) auto
      obtain i' j' where u: "u = (i', j')" by (cases u) auto
      have v: "0 \<le> i" "i < ?W" "0 \<le> j" "j < ?H"
        using valid that(1) unfolding t by blast+
      have v': "0 \<le> i'" "i' < ?W" "0 \<le> j'" "j' < ?H"
        using valid that(2) unfolding u by blast+
      have "off t \<noteq> off u"
      proof
        assume "off t = off u"
        then have "i + j * ?W + ?W * ?H * 0 = i' + j' * ?W + ?W * ?H * 0"
          using v v' dims unfolding t u off_def prod.case by (simp add: nat_eq_iff)
        then have "i = i' \<and> j = j' \<and> (0::int) = 0"
          using v v' by (intro offset_inj [where W = ?W and H = ?H]) auto
        then show False using that(3) t u by simp
      qed
      then show ?thesis by (simp add: blk_def)
    qed
  qed
  then obtain b' where r: "for_each ?xs body (?hp1[?g := ?z]) = Inr (?hp1[?g := b'])"
    and lb: "length b' = ?N"
    and inb: "\<And>t n. t \<in> set ?xs \<Longrightarrow> n \<in> blk t \<Longrightarrow> n < ?N \<Longrightarrow> b' ! n = upd t ?z ! n"
    by blast
  have res: "rgb_to_grayscale hp im = Inr (hp @ [b'], ?gray)"
    using run r by simp
  have lenb: "int (length b') = ?W * ?H" using lb WH by simp
  have px: "b' ! nat (i + j * ?W) = luma (i, j)"
    if v: "0 \<le> i" "i < ?W" "0 \<le> j" "j < ?H" for i j
  proof -
    have mem: "(i, j) \<in> set ?xs" using v by (simp add: set_range0)
    have "i + j * ?W + ?W * ?H * 0 < ?W * ?H * 1"
      using v by (intro offset_less) auto
    then have k: "off (i, j) < ?N" using v dims by (simp add: off_def nat_less_iff)
    have "b' ! off (i, j) = upd (i, j) ?z ! off (i, j)"
      using inb [OF mem _ k] by (simp add: blk_def)
    also have "\<dots> = luma (i, j)" using k by (simp add: upd_def)
    finally show ?thesis by (simp add: off_def)
  qed
  show ?thesis
    apply (rule exI [of _ b'])
    apply (intro conjI allI impI)
      apply (rule res)
     apply (rule lenb)
    apply (elim conjE)
    apply (drule (3) px)
    apply (simp add: luma_def)
    done
qed

text \<open>
  C6. On a well-formed 3-channel image \<^verbatim>\<open>rgb_to_grayscale\<close> returns without fault a
  well-formed single-channel image of the same width and height over a new buffer,
  leaving the existing buffers as they were; at every pixel \<open>(x, y)\<close> its sample is
  \<open>0.299 R + 0.587 G + 0.114 B\<close> of the three source samples there; and when every
  source sample is \<open>k\<close>, every sample of the result is \<open>k\<close>.
\<close>

theorem rgb_to_grayscale_luma:
  assumes wf: "wf_image hp im" and c3: "im_c im = 3"
  shows "case rgb_to_grayscale hp im of
           Inl e \<Rightarrow> False
         | Inr (hp', gray) \<Rightarrow>
             im_w gray = im_w im \<and> im_h gray = im_h im \<and> im_c gray = 1 \<and>
             wf_image hp' gray \<and> take (length hp) hp' = hp \<and>
             (\<forall>x y. 0 \<le> x \<and> x < im_w im \<and> 0 \<le> y \<and> y < im_h im \<longrightarrow>
                (\<exists>r g b. get_pixel hp im x y 0 = Inr r \<and> get_pixel hp im x y 1 = Inr g \<and>
                   get_pixel hp im x y 2 = Inr b \<and>
                   get_pixel hp' gray x y 0 = Inr (r * 0.299 + g * 0.587 + b * 0.114))) \<and>
             (\<forall>k. (\<forall>x y c. 0 \<le> x \<and> x < im_w im \<and> 0 \<le> y \<and> y < im_h im \<and> 0 \<le> c \<and> c < 3 \<longrightarrow>
                       get_pixel hp im x y c = Inr k) \<longrightarrow>
                  (\<forall>x y. 0 \<le> x \<and> x < im_w im \<and> 0 \<le> y \<and> y < im_h im \<longrightarrow>
                       get_pixel hp' gray x y 0 = Inr k))"
proof -
  let ?d = "im_data im" and ?W = "im_w im" and ?H = "im_h im"
  let ?gray = "\<lparr>im_w = ?W, im_h = ?H, im_c = 1, im_data = length hp\<rparr>"
  obtain gb where res: "rgb_to_grayscale hp im = Inr (hp @ [gb], ?gray)"
    and len: "int (length gb) = ?W * ?H"
    and px: "\<And>i j. 0 \<le> i \<Longrightarrow> i < ?W \<Longrightarrow> 0 \<le> j \<Longrightarrow> j < ?H \<Longrightarrow>
               gb ! nat (i + j * ?W) =
                 hp ! ?d ! nat (i + j * ?W + ?W * ?H * 0) * 0.299 +
                 hp ! ?d ! nat (i + j * ?W + ?W * ?H * 1) * 0.587 +
                 hp ! ?d ! nat (i + j * ?W + ?W * ?H * 2) * 0.114"
    using rgb_to_grayscale_result [OF wf c3] by blast
  have dims: "0 \<le> ?W" "0 \<le> ?H" using wf by (simp_all add: wf_image_def)
  have wf_g: "wf_image (hp @ [gb]) ?gray"
    using len dims by (simp add: wf_image_def)
  have src: "get_pixel hp im x y c = Inr (hp ! ?d ! nat (x + y * ?W + ?W * ?H * c))"
    if "0 \<le> x" "x < ?W" "0 \<le> y" "y < ?H" "0 \<le> c" "c < 3" for x y c
    using get_pixel_in_range [OF wf that(1-5)] that(6) c3 by simp
  have dst: "get_pixel (hp @ [gb]) ?gray x y 0 = Inr (gb ! nat (x + y * ?W))"
    if "0 \<le> x" "x < ?W" "0 \<le> y" "y < ?H" for x y
    using get_pixel_in_range [OF wf_g, of x y 0] that by simp
  have luma: "\<exists>r g b. get_pixel hp im x y 0 = Inr r \<and> get_pixel hp im x y 1 = Inr g \<and>
                 get_pixel hp im x y 2 = Inr b \<and>
                 get_pixel (hp @ [gb]) ?gray x y 0 = Inr (r * 0.299 + g * 0.587 + b * 0.114)"
    if v: "0 \<le> x \<and> x < ?W \<and> 0 \<le> y \<and> y < ?H" for x y
  proof -
    have v': "0 \<le> x" "x < ?W" "0 \<le> y" "y < ?H" using v by simp_all
    show ?thesis
      using src [OF v', of 0] src [OF v', of 1] src [OF v', of 2] dst [OF v'] px [OF v']
      by simp
  qed
  have uniform: "get_pixel (hp @ [gb]) ?gray x y 0 = Inr k"
    if u: "\<forall>x y c. 0 \<le> x \<and> x < ?W \<and> 0 \<le> y \<and> y < ?H \<and> 0 \<le> c \<and> c < 3 \<longrightarrow>
                   get_pixel hp im x y c = Inr k"
      and v: "0 \<le> x \<and> x < ?W \<and> 0 \<le> y \<and> y < ?H" for k x y
  proof -
    obtain r g b where l: "get_pixel hp im x y 0 = Inr r" "get_pixel hp im x y 1 = Inr g"
      "get_pixel hp im x y 2 = Inr b"
      "get_pixel (hp @ [gb]) ?gray x y 0 = Inr (r * 0.299 + g * 0.587 + b * 0.114)"
      using luma [OF v] by blast
    have "get_pixel hp im x y 0 = Inr k" "get_pixel hp im x y 1 = Inr k"
      "get_pixel hp im x y 2 = Inr k"
      using u v by simp_all
    with l have "r = k" "g = k" "b = k" by simp_all
    with l(4) show ?thesis by simp
  qed
  show ?thesis
    unfolding res sum.case prod.case
    apply (intro conjI allI impI)
          apply simp
         apply simp
        apply simp
       apply (rule wf_g)
      apply simp
     apply (erule luma)
    apply (erule (1) uniform)
    done
qed

theorem rgb_to_grayscale_luma_witness:
  "wf_image [[0.5, 0.5, 0.5 :: real]] \<lparr>im_w = 1, im_h = 1, im_c = 3, im_data = 0\<rparr> \<and>
   rgb_to_grayscale [[0.5, 0.5, 0.5]] \<lparr>im_w = 1, im_h = 1, im_c = 3, im_data = 0\<rparr> =
     Inr ([[0.5, 0.5, 0.5], [0.5]], \<lparr>im_w = 1, im_h = 1, im_c = 1, im_data = 1\<rparr>) \<and>
   get_pixel [[0.5, 0.5, 0.5], [0.5 :: real]] \<lparr>im_w = 1, im_h = 1, im_c = 1, im_data = 1\<rparr> 0 0 0 =
     Inr 0.5"
proof -
  have wf: "wf_image [[0.5, 0.5, 0.5 :: real]] \<lparr>im_w = 1, im_h = 1, im_c = 3, im_data = 0\<rparr>"
    by (simp add: wf_image_def)
  have r: "rgb_to_grayscale [[0.5, 0.5, 0.5]] \<lparr>im_w = 1, im_h = 1, im_c = 3, im_data = 0\<rparr> =
     Inr ([[0.5, 0.5, 0.5], [0.5]], \<lparr>im_w = 1, im_h = 1, im_c = 1, im_data = 1\<rparr>)"
    by code_simp
  have u: "\<forall>x y c. 0 \<le> x \<and> x < 1 \<and> 0 \<le> y \<and> y < 1 \<and> 0 \<le> c \<and> c < 3 \<longrightarrow>
             get_pixel [[0.5, 0.5, 0.5 :: real]] \<lparr>im_w = 1, im_h = 1, im_c = 3, im_data = 0\<rparr> x y c =
               Inr 0.5"
  proof (intro allI impI)
    fix x y c :: int
    assume "0 \<le> x \<and> x < 1 \<and> 0 \<le> y \<and> y < 1 \<and> 0 \<le> c \<and> c < 3"
    then have "x = 0" "y = 0" "c = 0 \<or> c = 1 \<or> c = 2" by auto
    then show "get_pixel [[0.5, 0.5, 0.5 :: real]]
                 \<lparr>im_w = 1, im_h = 1, im_c = 3, im_data = 0\<rparr> x y c = Inr 0.5"
      by (auto simp: get_pixel_def load_def)
  qed
  have "get_pixel [[0.5, 0.5, 0.5], [0.5 :: real]]
          \<lparr>im_w = 1, im_h = 1, im_c = 1, im_data = 1\<rparr> 0 0 0 = Inr 0.5"
    using rgb_to_grayscale_luma [OF wf] u unfolding r by simp
  with wf r show ?thesis by simp
qed

section \<open>RGB to HSV and back\<close>


















lemma offset_nat_neq:
  fixes W H :: int
  assumes "0 \<le> i" "i < W" "0 \<le> j" "j < H" "0 \<le> c"
      and "0 \<le> i'" "i' < W" "0 \<le> j'" "j' < H" "0 \<le> c'"
      and "(i, j, c) \<noteq> (i', j', c')"
  shows "nat (i + j * W + W * H * c) \<noteq> nat (i' + j' * W + W * H * c')"
proof
  assume e: "nat (i + j * W + W * H * c) = nat (i' + j' * W + W * H * c')"
  have "0 \<le> i + j * W + W * H * c" "0 \<le> i' + j' * W + W * H * c'"
    using assms by simp_all
  with e have "i + j * W + W * H * c = i' + j' * W + W * H * c'"
    by (simp add: nat_eq_iff)
  then have "i = i' \<and> j = j' \<and> c = c'"
    using assms by (intro offset_inj [where W = W and H = H]) auto
  with assms(11) show False by simp
qed





section \<open>Resizing to the same size\<close>

lemma c_round_of_int: "c_round (real_of_int k) = k"
proof (cases "0 \<le> k")
  case True
  have "\<lfloor>real_of_int k + 1 / 2\<rfloor> = k" by (intro floor_unique) simp_all
  then show ?thesis using True by (simp add: c_round_def)
next
  case False
  have "\<lceil>real_of_int k - 1 / 2\<rceil> = k" by (intro ceiling_unique) simp_all
  then show ?thesis using False by (simp add: c_round_def)
qed

text \<open>Resizing to the image's own size with nearest-neighbour sampling copies the
  buffer, for every well-formed image.\<close>

lemma nn_resize_own_size:
  assumes wf: "wf_image hp im"
  shows "nn_resize hp im (im_w im) (im_h im) =
           Inr (hp @ [hp ! im_data im], im\<lparr>im_data := length hp\<rparr>)"
proof -
  let ?d = "im_data im" and ?W = "im_w im" and ?H = "im_h im" and ?C = "im_c im"
  let ?g = "length hp"
  let ?buf = "hp ! ?d"
  let ?N = "length ?buf"
  let ?res = "\<lparr>im_w = ?W, im_h = ?H, im_c = ?C, im_data = ?g\<rparr>"
  let ?z = "replicate (nat (?W * ?H * ?C)) (0 :: real)"
  let ?hp1 = "hp @ [?z]"
  let ?xs = "List.product (range0 ?H) (List.product (range0 ?W) (range0 ?C))"
  let ?rx = "real_of_int ?W / real_of_int ?W"
  let ?ry = "real_of_int ?H / real_of_int ?H"
  define off where "off = (\<lambda>(row, col, z). nat (col + row * ?W + ?W * ?H * z))"
  define blk where "blk = (\<lambda>t. {off t})"
  define upd where "upd = (\<lambda>t (b :: real list). b[off t := ?buf ! off t])"
  define body where "body = (\<lambda>(row, col, z) (s :: real heap).
     bnd (nn_interpolate s im (?rx * real_of_int col + (- 0.5 + 0.5 * ?rx))
            (?ry * real_of_int row + (- 0.5 + 0.5 * ?ry)) z)
       (\<lambda>val. set_pixel s ?res col row z val))"
  have d: "?d < length hp" and dims: "0 \<le> ?W" "0 \<le> ?H" "0 \<le> ?C"
    and len: "int ?N = ?W * ?H * ?C"
    using wf by (simp_all add: wf_image_def)
  have natN: "nat (?W * ?H * ?C) = ?N" using len by simp
  have valid: "0 \<le> col \<and> col < ?W \<and> 0 \<le> row \<and> row < ?H \<and> 0 \<le> z \<and> z < ?C"
    if "(row, col, z) \<in> set ?xs" for row col z
    using that by (simp add: set_range0)
  have upd_heap: "?hp1[?g := b] = hp @ [b]" for b by simp
  have run: "nn_resize hp im ?W ?H = bnd (for_each ?xs body ?hp1) (\<lambda>hp2. Inr (hp2, ?res))"
    unfolding nn_resize_def body_def make_image_def
    by (simp only: Let_def prod.case image.simps for_each_product3)
  have "\<exists>b'. for_each ?xs body (?hp1[?g := ?z]) = Inr (?hp1[?g := b']) \<and> length b' = ?N \<and>
           (\<forall>t n. t \<in> set ?xs \<and> n \<in> blk t \<and> n < ?N \<longrightarrow> b' ! n = upd t ?z ! n) \<and>
           (\<forall>n. n < ?N \<and> (\<forall>t. t \<in> set ?xs \<longrightarrow> n \<notin> blk t) \<longrightarrow> b' ! n = ?z ! n)"
  proof (rule for_each_blocks)
    show "distinct ?xs"
      by (intro distinct_product distinct_range0)
    show "length ?z = ?N" using natN by simp
    show "body t (?hp1[?g := b]) = Inr (?hp1[?g := upd t b])"
      if "t \<in> set ?xs" "length b = ?N" for t b
    proof -
      obtain row col z where t: "t = (row, col, z)" by (cases t) auto
      have v: "0 \<le> col" "col < ?W" "0 \<le> row" "row < ?H" "0 \<le> z" "z < ?C"
        using valid that(1) unfolding t by blast+
      have x: "?rx * real_of_int col + (- 0.5 + 0.5 * ?rx) = real_of_int col"
        using v by simp
      have y: "?ry * real_of_int row + (- 0.5 + 0.5 * ?ry) = real_of_int row"
        using v by simp
      have wf_im: "wf_image (hp @ [b]) im"
        using wf by (simp add: wf_image_def nth_append)
      have wf_r: "wf_image (hp @ [b]) ?res"
        using that(2) dims len by (simp add: wf_image_def)
      have g: "nn_interpolate (hp @ [b]) im (real_of_int col) (real_of_int row) z =
                 Inr (?buf ! nat (col + row * ?W + ?W * ?H * z))"
        unfolding nn_interpolate_def c_round_of_int
        using get_pixel_in_range [OF wf_im v] d by (simp add: nth_append)
      have s: "set_pixel (hp @ [b]) ?res col row z val =
                 Inr (hp @ [b[nat (col + row * ?W + ?W * ?H * z) := val]])" for val
        using set_pixel_in_range [OF wf_r, of col row z val] v by simp
      show ?thesis
        unfolding upd_heap t body_def upd_def off_def prod.case x y
        by (simp add: g s)
    qed
    show "length (upd t b) = ?N" if "t \<in> set ?xs" "length b = ?N" for t b
      using that by (simp add: upd_def)
    show "upd t b ! n = b ! n"
      if "t \<in> set ?xs" "length b = ?N" "n \<notin> blk t" "n < ?N" for t b n
      using that by (simp add: upd_def blk_def)
    show "upd t b1 ! n = upd t b2 ! n"
      if "t \<in> set ?xs" "length b1 = ?N" "length b2 = ?N"
        "\<And>m. m \<in> blk t \<Longrightarrow> m < ?N \<Longrightarrow> b1 ! m = b2 ! m" "n \<in> blk t" "n < ?N" for t b1 b2 n
    proof -
      have n: "n = off t" using that(5) by (simp add: blk_def)
      show ?thesis using that(2,3,6) unfolding n by (simp add: upd_def)
    qed
    show "blk t \<inter> blk u = {}" if "t \<in> set ?xs" "u \<in> set ?xs" "t \<noteq> u" for t u
    proof -
      obtain row col z where t: "t = (row, col, z)" by (cases t) auto
      obtain row' col' z' where u: "u = (row', col', z')" by (cases u) auto
      have v: "0 \<le> col" "col < ?W" "0 \<le> row" "row < ?H" "0 \<le> z"
        using valid that(1) unfolding t by blast+
      have v': "0 \<le> col'" "col' < ?W" "0 \<le> row'" "row' < ?H" "0 \<le> z'"
        using valid that(2) unfolding u by blast+
      have "(col, row, z) \<noteq> (col', row', z')" using that(3) t u by auto
      then have "off t \<noteq> off u"
        unfolding t u off_def prod.case by (intro offset_nat_neq v v')
      then show ?thesis by (simp add: blk_def)
    qed
  qed
  then obtain b' where r: "for_each ?xs body (?hp1[?g := ?z]) = Inr (?hp1[?g := b'])"
    and lb: "length b' = ?N"
    and inb: "\<And>t n. t \<in> set ?xs \<Longrightarrow> n \<in> blk t \<Longrightarrow> n < ?N \<Longrightarrow> b' ! n = upd t ?z ! n"
    by blast
  have "b' = ?buf"
  proof (rule nth_equalityI)
    show "length b' = length ?buf" by (rule lb)
  next
    fix n assume "n < length b'"
    then have n: "n < ?N" using lb by simp
    then have "0 \<le> int n" "int n < ?W * ?H * ?C" using len by simp_all
    then obtain x y c where v: "0 \<le> x" "x < ?W" "0 \<le> y" "y < ?H" "0 \<le> c" "c < ?C"
      and e: "int n = x + y * ?W + ?W * ?H * c"
      using offset_cover [OF _ _ dims(1,2)] by blast
    have mem: "(y, x, c) \<in> set ?xs" using v by (simp add: set_range0)
    have o: "off (y, x, c) = n" unfolding off_def prod.case e [symmetric] by simp
    have "b' ! n = upd (y, x, c) ?z ! n"
      using inb [OF mem _ n] o by (simp add: blk_def)
    also have "\<dots> = ?buf ! n"
      using n o natN by (simp add: upd_def)
    finally show "b' ! n = ?buf ! n" .
  qed
  then have "for_each ?xs body ?hp1 = Inr (hp @ [?buf])"
    using r by simp
  then show ?thesis
    unfolding run by simp
qed

text \<open>With bilinear sampling the same resize writes 0 into every sample, whatever
  the image holds.\<close>

lemma bilinear_resize_own_size:
  assumes wf: "wf_image hp im"
  shows "bilinear_resize hp im (im_w im) (im_h im) =
           Inr (hp @ [replicate (length (hp ! im_data im)) 0], im\<lparr>im_data := length hp\<rparr>)"
proof -
  let ?d = "im_data im" and ?W = "im_w im" and ?H = "im_h im" and ?C = "im_c im"
  let ?g = "length hp"
  let ?buf = "hp ! ?d"
  let ?N = "length ?buf"
  let ?res = "\<lparr>im_w = ?W, im_h = ?H, im_c = ?C, im_data = ?g\<rparr>"
  let ?z = "replicate (nat (?W * ?H * ?C)) (0 :: real)"
  let ?hp1 = "hp @ [?z]"
  let ?xs = "List.product (range0 ?H) (List.product (range0 ?W) (range0 ?C))"
  let ?rx = "real_of_int ?W / real_of_int ?W"
  let ?ry = "real_of_int ?H / real_of_int ?H"
  define off where "off = (\<lambda>(row, col, z). nat (col + row * ?W + ?W * ?H * z))"
  define blk where "blk = (\<lambda>t. {off t})"
  define upd where "upd = (\<lambda>t (b :: real list). b[off t := 0])"
  define body where "body = (\<lambda>(row, col, z) (s :: real heap).
     bnd (bilinear_interpolate s im (?rx * real_of_int col + (- 0.5 + 0.5 * ?rx))
            (?ry * real_of_int row + (- 0.5 + 0.5 * ?ry)) z)
       (\<lambda>val. set_pixel s ?res col row z val))"
  have d: "?d < length hp" and dims: "0 \<le> ?W" "0 \<le> ?H" "0 \<le> ?C"
    and len: "int ?N = ?W * ?H * ?C"
    using wf by (simp_all add: wf_image_def)
  have natN: "nat (?W * ?H * ?C) = ?N" using len by simp
  have valid: "0 \<le> col \<and> col < ?W \<and> 0 \<le> row \<and> row < ?H \<and> 0 \<le> z \<and> z < ?C"
    if "(row, col, z) \<in> set ?xs" for row col z
    using that by (simp add: set_range0)
  have upd_heap: "?hp1[?g := b] = hp @ [b]" for b by simp
  have run: "bilinear_resize hp im ?W ?H = bnd (for_each ?xs body ?hp1) (\<lambda>hp2. Inr (hp2, ?res))"
    unfolding bilinear_resize_def body_def make_image_def
    by (simp only: Let_def prod.case image.simps for_each_product3)
  have "\<exists>b'. for_each ?xs body (?hp1[?g := ?z]) = Inr (?hp1[?g := b']) \<and> length b' = ?N \<and>
           (\<forall>t n. t \<in> set ?xs \<and> n \<in> blk t \<and> n < ?N \<longrightarrow> b' ! n = upd t ?z ! n) \<and>
           (\<forall>n. n < ?N \<and> (\<forall>t. t \<in> set ?xs \<longrightarrow> n \<notin> blk t) \<longrightarrow> b' ! n = ?z ! n)"
  proof (rule for_each_blocks)
    show "distinct ?xs"
      by (intro distinct_product distinct_range0)
    show "length ?z = ?N" using natN by simp
    show "body t (?hp1[?g := b]) = Inr (?hp1[?g := upd t b])"
      if "t \<in> set ?xs" "length b = ?N" for t b
    proof -
      obtain row col z where t: "t = (row, col, z)" by (cases t) auto
      have v: "0 \<le> col" "col < ?W" "0 \<le> row" "row < ?H" "0 \<le> z" "z < ?C"
        using valid that(1) unfolding t by blast+
      have x: "?rx * real_of_int col + (- 0.5 + 0.5 * ?rx) = real_of_int col"
        using v by simp
      have y: "?ry * real_of_int row + (- 0.5 + 0.5 * ?ry) = real_of_int row"
        using v by simp
      have wf_im: "wf_image (hp @ [b]) im"
        using wf by (simp add: wf_image_def nth_append)
      have wf_r: "wf_image (hp @ [b]) ?res"
        using that(2) dims len by (simp add: wf_image_def)
      have g: "bilinear_interpolate (hp @ [b]) im (real_of_int col) (real_of_int row) z = Inr 0"
        by (rule bilinear_interpolate_integer_point [OF wf_im v])
      have s: "set_pixel (hp @ [b]) ?res col row z val =
                 Inr (hp @ [b[nat (col + row * ?W + ?W * ?H * z) := val]])" for val
        using set_pixel_in_range [OF wf_r, of col row z val] v by simp
      show ?thesis
        unfolding upd_heap t body_def upd_def off_def prod.case x y
        by (simp add: g s)
    qed
    show "length (upd t b) = ?N" if "t \<in> set ?xs" "length b = ?N" for t b
      using that by (simp add: upd_def)
    show "upd t b ! n = b ! n"
      if "t \<in> set ?xs" "length b = ?N" "n \<notin> blk t" "n < ?N" for t b n
      using that by (simp add: upd_def blk_def)
    show "upd t b1 ! n = upd t b2 ! n"
      if "t \<in> set ?xs" "length b1 = ?N" "length b2 = ?N"
        "\<And>m. m \<in> blk t \<Longrightarrow> m < ?N \<Longrightarrow> b1 ! m = b2 ! m" "n \<in> blk t" "n < ?N" for t b1 b2 n
    proof -
      have n: "n = off t" using that(5) by (simp add: blk_def)
      show ?thesis using that(2,3,6) unfolding n by (simp add: upd_def)
    qed
    show "blk t \<inter> blk u = {}" if "t \<in> set ?xs" "u \<in> set ?xs" "t \<noteq> u" for t u
    proof -
      obtain row col z where t: "t = (row, col, z)" by (cases t) auto
      obtain row' col' z' where u: "u = (row', col', z')" by (cases u) auto
      have v: "0 \<le> col" "col < ?W" "0 \<le> row" "row < ?H" "0 \<le> z"
        using valid that(1) unfolding t by blast+
      have v': "0 \<le> col'" "col' < ?W" "0 \<le> row'" "row' < ?H" "0 \<le> z'"
        using valid that(2) unfolding u by blast+
      have "(col, row, z) \<noteq> (col', row', z')" using that(3) t u by auto
      then have "off t \<noteq> off u"
        unfolding t u off_def prod.case by (intro offset_nat_neq v v')
      then show ?thesis by (simp add: blk_def)
    qed
  qed
  then obtain b' where r: "for_each ?xs body (?hp1[?g := ?z]) = Inr (?hp1[?g := b'])"
    and lb: "length b' = ?N"
    and inb: "\<And>t n. t \<in> set ?xs \<Longrightarrow> n \<in> blk t \<Longrightarrow> n < ?N \<Longrightarrow> b' ! n = upd t ?z ! n"
    by blast
  have "b' = replicate ?N 0"
  proof (rule nth_equalityI)
    show "length b' = length (replicate ?N (0 :: real))" using lb by simp
  next
    fix n assume "n < length b'"
    then have n: "n < ?N" using lb by simp
    then have "0 \<le> int n" "int n < ?W * ?H * ?C" using len by simp_all
    then obtain x y c where v: "0 \<le> x" "x < ?W" "0 \<le> y" "y < ?H" "0 \<le> c" "c < ?C"
      and e: "int n = x + y * ?W + ?W * ?H * c"
      using offset_cover [OF _ _ dims(1,2)] by blast
    have mem: "(y, x, c) \<in> set ?xs" using v by (simp add: set_range0)
    have o: "off (y, x, c) = n" unfolding off_def prod.case e [symmetric] by simp
    have "b' ! n = upd (y, x, c) ?z ! n"
      using inb [OF mem _ n] o by (simp add: blk_def)
    also have "\<dots> = 0"
      using n o natN by (simp add: upd_def)
    finally show "b' ! n = replicate ?N 0 ! n" using n by simp
  qed
  then have "for_each ?xs body ?hp1 = Inr (hp @ [replicate ?N 0])"
    using r by simp
  then show ?thesis
    unfolding run by simp
qed

end
